theory Spec2Isabelle
  imports Main "HOL-Library.Char_ord" "HOL-Library.List_Lexorder" "HOL-Library.Multiset"
begin

section \<open>Subset construction of script.js\<close>

text \<open>
  The development embeds the conversion core of \<^verbatim>\<open>script.js\<close>: the classes \<^verbatim>\<open>NFA\<close> and
  \<^verbatim>\<open>DFA\<close>, \<^verbatim>\<open>epsilonClosure\<close>, \<^verbatim>\<open>stateSetToString\<close> and \<^verbatim>\<open>convertNFAtoDFA\<close>.

  State identifiers and symbols of an NFA are JavaScript strings, modelled as \<open>string\<close> and
  ordered lexicographically by character code with a proper prefix first. The objects
  \<^verbatim>\<open>nfa.transitions\<close> and \<^verbatim>\<open>nfa.transitions[state]\<close> are plain objects: their own properties are
  an association list read with \<open>map_of\<close>, and a name that is not an own property is looked up
  in \<^verbatim>\<open>Object.prototype\<close>. What that lookup finds belongs to the JavaScript runtime and not to
  the program, so the runtime is a parameter of the model, the \<open>host\<close>. A JavaScript \<^verbatim>\<open>Set\<close>
  and a \<^verbatim>\<open>Map\<close> iterate in insertion order, so they are lists without repetition that grow at
  the end.
\<close>

subsection \<open>Values and the runtime\<close>

text \<open>
  The elements of the state arrays. The program puts strings there; a lookup that reaches
  \<^verbatim>\<open>Object.prototype\<close> can add a value of the runtime (a function, an object, a number), which
  is \<open>Ref i t\<close>: \<open>i\<close> tells such values apart, as \<^verbatim>\<open>Set\<close> membership does, and \<open>t\<close> is the
  string the value converts to when it is used as a property name, sorted or joined.
\<close>

datatype jsval = Str string | Ref nat string

fun to_text :: "jsval \<Rightarrow> string" where
  "to_text (Str s) = s"
| "to_text (Ref i t) = t"

text \<open>Reading a member of a runtime object gives a value, or throws (a poisoned accessor).\<close>

datatype member = Value jsval | Throws

text \<open>
  The runtime: the members of \<^verbatim>\<open>Object.prototype\<close> by name, and for each runtime object the
  members found on it and along its prototype chain. A table lists the members whose value is
  truthy; none of them is an array.
\<close>

record host =
  object_prototype :: "(string \<times> jsval) list"
  members :: "(jsval \<times> (string \<times> member) list) list"

text \<open>
  \<^verbatim>\<open>Object.prototype[name]\<close> and \<^verbatim>\<open>x[name]\<close> for a runtime object \<open>x\<close>. No object of the runtime
  has a member named by the empty string.
\<close>

definition inherited :: "host \<Rightarrow> string \<Rightarrow> jsval option" where
  "inherited h name = (if name = [] then None else map_of (object_prototype h) name)"

definition member_of :: "host \<Rightarrow> jsval \<Rightarrow> string \<Rightarrow> member option" where
  "member_of h x name =
     (if name = [] then None
      else (case map_of (members h) x of None \<Rightarrow> None | Some table \<Rightarrow> map_of table name))"

subsection \<open>Data model\<close>

type_synonym nfa_transitions = "(string \<times> (string \<times> string list) list) list"

record NFA =
  states :: "string list"
  alphabet :: "string list"
  transitions :: nfa_transitions
  startState :: string
  acceptStates :: "string set"

record DFA =
  states :: "string list"
  alphabet :: "string list"
  transitions :: "string \<rightharpoonup> (string \<rightharpoonup> string)"
  startState :: string
  acceptStates :: "string list"

text \<open>
  The conversion fails by a \<^verbatim>\<open>TypeError\<close>: a method call or property write on \<^verbatim>\<open>undefined\<close>, or
  a member of the runtime that throws when read.
\<close>

datatype error = TypeError

text \<open>The local variables of \<^verbatim>\<open>convertNFAtoDFA\<close> that the conversion mutates.\<close>

record conv_state =
  dfaStates :: "(string \<times> jsval list) list"
  dfaTransitions :: "string \<rightharpoonup> (string \<rightharpoonup> string)"
  dfaAcceptStates :: "string list"
  dfaQueue :: "string list"

subsection \<open>Helpers of the JavaScript runtime\<close>

text \<open>\<^verbatim>\<open>set.add(x)\<close> on an insertion-ordered set, and \<^verbatim>\<open>new Set(xs)\<close>.\<close>

definition set_add :: "'a list \<Rightarrow> 'a \<Rightarrow> 'a list" where
  "set_add s x = (if x \<in> set s then s else s @ [x])"

definition new_Set :: "'a list \<Rightarrow> 'a list" where
  "new_Set xs = fold (\<lambda>x s. set_add s x) xs []"

text \<open>\<^verbatim>\<open>xs.join(sep)\<close> on the strings that the elements convert to.\<close>

fun join :: "string \<Rightarrow> string list \<Rightarrow> string" where
  "join sep [] = []"
| "join sep [x] = x"
| "join sep (x # y # ys) = x @ sep @ join sep (y # ys)"

text \<open>
  \<^verbatim>\<open>transitions[state]?.[symbol] || []\<close> as the callback of \<^verbatim>\<open>flatMap\<close> uses it. The property
  name of \<open>state\<close> is the string it converts to. An own row with an own entry gives its array.
  An own row without the entry, and a state without an own row, fall through to
  \<^verbatim>\<open>Object.prototype\<close>: a member found there is not an array, and \<^verbatim>\<open>flatMap\<close> keeps it as one
  element.
\<close>

definition destinations :: "host \<Rightarrow> nfa_transitions \<Rightarrow> jsval \<Rightarrow> string \<Rightarrow> error + jsval list" where
  "destinations h T state symbol =
     (case map_of T (to_text state) of
        Some row \<Rightarrow>
          (case map_of row symbol of
             Some nextStates \<Rightarrow> Inr (map Str nextStates)
           | None \<Rightarrow> (case inherited h symbol of None \<Rightarrow> Inr [] | Some x \<Rightarrow> Inr [x]))
      | None \<Rightarrow>
          (case inherited h (to_text state) of
             None \<Rightarrow> Inr []
           | Some x \<Rightarrow>
               (case member_of h x symbol of
                  None \<Rightarrow> Inr []
                | Some (Value v) \<Rightarrow> Inr [v]
                | Some Throws \<Rightarrow> Inl TypeError)))"

text \<open>
  The same expression with the empty symbol, as \<^verbatim>\<open>epsilonClosure\<close> uses it: no runtime object
  has a member of that name, so only an own entry of an own row is found.
\<close>

definition epsilonStates :: "nfa_transitions \<Rightarrow> jsval \<Rightarrow> jsval list" where
  "epsilonStates T state =
     (case map_of T (to_text state) of
        None \<Rightarrow> []
      | Some row \<Rightarrow> (case map_of row [] of None \<Rightarrow> [] | Some nextStates \<Rightarrow> map Str nextStates))"

lemma destinations_epsilon: "destinations h T state [] = Inr (epsilonStates T state)"
  by (simp add: destinations_def epsilonStates_def inherited_def member_of_def
      split: option.splits)

subsection \<open>epsilonClosure\<close>

text \<open>
  The \<^verbatim>\<open>for\<close> loop over \<^verbatim>\<open>epsilonStates\<close>: a state not yet in \<^verbatim>\<open>closure\<close> is added to it and
  pushed on the stack (the top of the stack is the end of the list).
\<close>

fun epsilonClosure_for :: "jsval list \<Rightarrow> jsval list \<times> jsval list \<Rightarrow> jsval list \<times> jsval list" where
  "epsilonClosure_for [] (closure, stack) = (closure, stack)"
| "epsilonClosure_for (nextState # rest) (closure, stack) =
     (if nextState \<notin> set closure
      then epsilonClosure_for rest (closure @ [nextState], stack @ [nextState])
      else epsilonClosure_for rest (closure, stack))"

text \<open>Every state listed as a destination anywhere in the table.\<close>

definition all_targets :: "nfa_transitions \<Rightarrow> string set" where
  "all_targets T = set (concat (map (\<lambda>(state, row). concat (map snd row)) T))"

lemma all_targets_iff:
  "x \<in> all_targets T \<longleftrightarrow>
     (\<exists>state row symbol ns. (state, row) \<in> set T \<and> (symbol, ns) \<in> set row \<and> x \<in> set ns)"
  unfolding all_targets_def by (simp add: split_def) force

lemma own_entry_targets:
  assumes "map_of T key = Some row" and "map_of row symbol = Some ns"
  shows "set ns \<subseteq> all_targets T"
proof
  fix x assume x: "x \<in> set ns"
  from assms(1) have "(key, row) \<in> set T" by (rule map_of_SomeD)
  moreover from assms(2) have "(symbol, ns) \<in> set row" by (rule map_of_SomeD)
  ultimately show "x \<in> all_targets T" using x unfolding all_targets_iff by blast
qed

lemma epsilonStates_subset: "set (epsilonStates T state) \<subseteq> Str ` all_targets T"
proof (cases "map_of T (to_text state)")
  case None
  then show ?thesis by (simp add: epsilonStates_def)
next
  case (Some row)
  note row = this
  show ?thesis
  proof (cases "map_of row []")
    case None
    with row show ?thesis by (simp add: epsilonStates_def)
  next
    case (Some ns)
    from own_entry_targets [OF row Some] have "Str ` set ns \<subseteq> Str ` all_targets T"
      by (rule image_mono)
    with row Some show ?thesis by (simp add: epsilonStates_def)
  qed
qed

lemma epsilonClosure_for_new:
  "\<exists>new. epsilonClosure_for es (closure, stack) = (closure @ new, stack @ new)
     \<and> set new = set es - set closure \<and> (distinct closure \<longrightarrow> distinct (closure @ new))"
proof (induction es arbitrary: closure stack)
  case Nil
  show ?case by simp
next
  case (Cons e es)
  show ?case
  proof (cases "e \<in> set closure")
    case True
    with Cons.IH [of closure stack] show ?thesis by auto
  next
    case False
    from Cons.IH [of "closure @ [e]" "stack @ [e]"] obtain new where
      n: "epsilonClosure_for es (closure @ [e], stack @ [e]) = ((closure @ [e]) @ new, (stack @ [e]) @ new)"
         "set new = set es - set (closure @ [e])"
         "distinct (closure @ [e]) \<longrightarrow> distinct ((closure @ [e]) @ new)"
      by blast
    have "epsilonClosure_for (e # es) (closure, stack) = (closure @ (e # new), stack @ (e # new))"
      using False n(1) by simp
    moreover have "set (e # new) = set (e # es) - set closure"
      using False n(2) by auto
    moreover have "distinct closure \<longrightarrow> distinct (closure @ (e # new))"
      using False n(3) by auto
    ultimately show ?thesis by blast
  qed
qed

text \<open>The \<^verbatim>\<open>while\<close> loop: pop the last element of the stack and scan its epsilon destinations.\<close>

function epsilonClosure_while :: "nfa_transitions \<Rightarrow> jsval list \<Rightarrow> jsval list \<Rightarrow> jsval list" where
  "epsilonClosure_while T closure stack =
     (if stack = [] then closure
      else (let state = last stack;
                epsilonStates = epsilonStates T state;
                (closure', stack') = epsilonClosure_for epsilonStates (closure, butlast stack)
            in epsilonClosure_while T closure' stack'))"
  by pat_completeness auto
termination
proof (relation "inv_image (less_than <*lex*> less_than)
         (\<lambda>(T, closure, stack). (card (Str ` all_targets T - set closure), length stack))")
  show "wf (inv_image (less_than <*lex*> less_than)
         (\<lambda>(T, closure, stack). (card (Str ` all_targets T - set closure), length (stack :: jsval list))))"
    by (intro wf_inv_image wf_lex_prod wf_less_than)
next
  fix T :: nfa_transitions and closure stack :: "jsval list" and state es x closure' stack'
  assume ne: "stack \<noteq> []" and st: "state = last stack"
    and es: "es = epsilonStates T state"
    and x: "x = epsilonClosure_for es (closure, butlast stack)"
    and xs: "(closure', stack') = x"
  obtain new where new: "epsilonClosure_for es (closure, butlast stack)
      = (closure @ new, butlast stack @ new)" "set new = set es - set closure"
    using epsilonClosure_for_new by blast
  from xs have "(closure', stack') = (closure @ new, butlast stack @ new)"
    unfolding x new(1) .
  then have c: "closure' = closure @ new" and s: "stack' = butlast stack @ new"
    by blast+
  have fin: "finite (Str ` all_targets T)" unfolding all_targets_def by (intro finite_imageI finite_set)
  show "((T, closure', stack'), (T, closure, stack))
      \<in> inv_image (less_than <*lex*> less_than)
         (\<lambda>(T, closure, stack). (card (Str ` all_targets T - set closure), length stack))"
  proof (cases "new = []")
    case True
    from ne have "length (butlast stack) < length stack" by (cases stack rule: rev_cases) simp_all
    with True show ?thesis unfolding c s by simp
  next
    case False
    then obtain e where e: "e \<in> set new" by (cases new) auto
    with new(2) have "e \<in> set es" "e \<notin> set closure" by blast+
    with epsilonStates_subset [of T state] have "e \<in> Str ` all_targets T - set closure"
      unfolding es by blast
    moreover from e c have "e \<notin> Str ` all_targets T - set closure'" by simp
    moreover from c have "Str ` all_targets T - set closure' \<subseteq> Str ` all_targets T - set closure" by auto
    ultimately have "Str ` all_targets T - set closure' \<subset> Str ` all_targets T - set closure" by blast
    with fin have "card (Str ` all_targets T - set closure') < card (Str ` all_targets T - set closure)"
      by (simp add: psubset_card_mono)
    then show ?thesis by simp
  qed
qed

definition epsilonClosure :: "jsval list \<Rightarrow> nfa_transitions \<Rightarrow> jsval list" where
  "epsilonClosure S T = epsilonClosure_while T (new_Set S) S"

declare epsilonClosure_while.simps [simp del]
lemma set_add_set: "set (set_add s x) = insert x (set s)"
  by (auto simp: set_add_def)

lemma set_add_distinct: "distinct s \<Longrightarrow> distinct (set_add s x)"
  by (simp add: set_add_def)

lemma fold_set_add:
  "set (fold (\<lambda>x s. set_add s x) xs acc) = set acc \<union> set xs
   \<and> (distinct acc \<longrightarrow> distinct (fold (\<lambda>x s. set_add s x) xs acc))"
  by (induction xs arbitrary: acc) (auto simp: set_add_set set_add_distinct)

lemma set_new_Set: "set (new_Set xs) = set xs"
  by (simp add: new_Set_def fold_set_add)

lemma distinct_new_Set: "distinct (new_Set xs)"
  by (simp add: new_Set_def fold_set_add)

lemma epsilonClosure_while_Nil: "epsilonClosure_while T closure [] = closure"
  by (simp add: epsilonClosure_while.simps)

lemma epsilonClosure_while_induct [consumes 0, case_names empty pop]:
  assumes empty: "\<And>T closure. P T closure []"
    and pop: "\<And>T closure stack new. stack \<noteq> [] \<Longrightarrow>
        epsilonClosure_while T closure stack
          = epsilonClosure_while T (closure @ new) (butlast stack @ new) \<Longrightarrow>
        set new = set (epsilonStates T (last stack)) - set closure \<Longrightarrow>
        (distinct closure \<longrightarrow> distinct (closure @ new)) \<Longrightarrow>
        P T (closure @ new) (butlast stack @ new) \<Longrightarrow> P T closure stack"
  shows "P T closure stack"
proof (induction T closure stack rule: epsilonClosure_while.induct)
  case (1 T closure stack)
  show ?case
  proof (cases "stack = []")
    case True
    then show ?thesis by (simp add: empty)
  next
    case False
    obtain new where new:
      "epsilonClosure_for (epsilonStates T (last stack)) (closure, butlast stack)
         = (closure @ new, butlast stack @ new)"
      "set new = set (epsilonStates T (last stack)) - set closure"
      "distinct closure \<longrightarrow> distinct (closure @ new)"
      using epsilonClosure_for_new by blast
    have eq: "epsilonClosure_while T closure stack
          = epsilonClosure_while T (closure @ new) (butlast stack @ new)"
      using False new(1) by (subst epsilonClosure_while.simps) simp
    have "P T (closure @ new) (butlast stack @ new)"
      by (rule "1.IH" [OF False refl refl refl new(1) [symmetric]])
    with False eq new(2,3) show ?thesis by (rule pop)
  qed
qed


lemma epsilonClosure_while_mono: "set closure \<subseteq> set (epsilonClosure_while T closure stack)"
proof (induction T closure stack rule: epsilonClosure_while_induct)
  case (empty T closure)
  show ?case by (simp add: epsilonClosure_while_Nil)
next
  case (pop T closure stack new)
  then show ?case by simp
qed

lemma epsilonClosure_while_distinct:
  "distinct closure \<Longrightarrow> distinct (epsilonClosure_while T closure stack)"
proof (induction T closure stack rule: epsilonClosure_while_induct)
  case (empty T closure)
  then show ?case by (simp add: epsilonClosure_while_Nil)
next
  case (pop T closure stack new)
  then show ?case by simp
qed

lemma epsilonClosure_while_upper:
  "set closure \<subseteq> X \<Longrightarrow> (\<forall>x\<in>X. set (epsilonStates T x) \<subseteq> X) \<Longrightarrow> set stack \<subseteq> X
     \<Longrightarrow> set (epsilonClosure_while T closure stack) \<subseteq> X"
proof (induction T closure stack rule: epsilonClosure_while_induct)
  case (empty T closure)
  then show ?case by (simp add: epsilonClosure_while_Nil)
next
  case (pop T closure stack new)
  from pop.hyps(1) have "last stack \<in> set stack" by simp
  with pop.prems have "set (epsilonStates T (last stack)) \<subseteq> X" by blast
  with pop.hyps(3) have n: "set new \<subseteq> X" by blast
  have "set (butlast stack) \<subseteq> set stack" by (meson in_set_butlastD subsetI)
  with pop.prems(3) have "set (butlast stack) \<subseteq> X" by blast
  with n pop.prems have "set (epsilonClosure_while T (closure @ new) (butlast stack @ new)) \<subseteq> X"
    by (intro pop.IH) simp_all
  with pop.hyps(2) show ?case by simp
qed

lemma epsilonClosure_while_closed:
  "set stack \<subseteq> set closure \<Longrightarrow>
   (\<forall>x\<in>set closure - set stack. set (epsilonStates T x) \<subseteq> set closure) \<Longrightarrow>
   (\<forall>x\<in>set (epsilonClosure_while T closure stack).
      set (epsilonStates T x) \<subseteq> set (epsilonClosure_while T closure stack))"
proof (induction T closure stack rule: epsilonClosure_while_induct)
  case (empty T closure)
  then show ?case by (simp add: epsilonClosure_while_Nil)
next
  case (pop T closure stack new)
  have bl: "set (butlast stack) \<subseteq> set stack" by (meson in_set_butlastD subsetI)
  have st: "stack = butlast stack @ [last stack]" using pop.hyps(1) by simp
  have a: "set (butlast stack @ new) \<subseteq> set (closure @ new)"
    using bl pop.prems(1) by auto
  have b: "\<forall>x\<in>set (closure @ new) - set (butlast stack @ new).
             set (epsilonStates T x) \<subseteq> set (closure @ new)"
  proof
    fix x assume x: "x \<in> set (closure @ new) - set (butlast stack @ new)"
    then have xc: "x \<in> set closure" and xb: "x \<notin> set (butlast stack)" by auto
    show "set (epsilonStates T x) \<subseteq> set (closure @ new)"
    proof (cases "x \<in> set stack")
      case False
      with xc pop.prems(2) show ?thesis by auto
    next
      case True
      then have "x \<in> set (butlast stack @ [last stack])" using st by simp
      with xb have "x = last stack" by simp
      with pop.hyps(3) show ?thesis by auto
    qed
  qed
  from pop.IH [OF a b] pop.hyps(2) show ?case by simp
qed

text \<open>The states reachable from a set \<open>S\<close> by zero or more epsilon transitions.\<close>

inductive_set eps_reach :: "nfa_transitions \<Rightarrow> jsval set \<Rightarrow> jsval set"
  for T :: nfa_transitions and S :: "jsval set" where
  base: "x \<in> S \<Longrightarrow> x \<in> eps_reach T S"
| step: "x \<in> eps_reach T S \<Longrightarrow> map_of T (to_text x) = Some row \<Longrightarrow>
         map_of row [] = Some nextStates \<Longrightarrow> y \<in> set nextStates \<Longrightarrow> Str y \<in> eps_reach T S"

lemma epsilonStates_iff:
  "y \<in> set (epsilonStates T x) \<longleftrightarrow>
     (\<exists>row nextStates n. map_of T (to_text x) = Some row \<and> map_of row [] = Some nextStates
        \<and> n \<in> set nextStates \<and> y = Str n)"
proof (cases "map_of T (to_text x)")
  case None
  then show ?thesis by (simp add: epsilonStates_def)
next
  case row: (Some row)
  show ?thesis
  proof (cases "map_of row []")
    case None
    with row show ?thesis by (simp add: epsilonStates_def)
  next
    case (Some found)
    with row show ?thesis by (auto simp: epsilonStates_def)
  qed
qed

lemma epsilonClosure_input: "set S \<subseteq> set (epsilonClosure S T)"
  unfolding epsilonClosure_def
  using epsilonClosure_while_mono [of "new_Set S" T S] by (simp add: set_new_Set)

lemma epsilonClosure_closed:
  "\<forall>x\<in>set (epsilonClosure S T). set (epsilonStates T x) \<subseteq> set (epsilonClosure S T)"
  unfolding epsilonClosure_def
  by (rule epsilonClosure_while_closed) (simp_all add: set_new_Set)

lemma epsilonClosure_least:
  "set S \<subseteq> X \<Longrightarrow> (\<forall>x\<in>X. set (epsilonStates T x) \<subseteq> X) \<Longrightarrow> set (epsilonClosure S T) \<subseteq> X"
  unfolding epsilonClosure_def
  by (rule epsilonClosure_while_upper) (simp_all add: set_new_Set)

lemma epsilonClosure_distinct: "distinct (epsilonClosure S T)"
  unfolding epsilonClosure_def
  by (rule epsilonClosure_while_distinct) (rule distinct_new_Set)

lemma epsilonClosure_eps_reach: "set (epsilonClosure S T) = eps_reach T (set S)"
proof
  show "set (epsilonClosure S T) \<subseteq> eps_reach T (set S)"
  proof (rule epsilonClosure_least)
    show "set S \<subseteq> eps_reach T (set S)" by (auto intro: eps_reach.base)
    show "\<forall>x\<in>eps_reach T (set S). set (epsilonStates T x) \<subseteq> eps_reach T (set S)"
    proof (intro ballI subsetI)
      fix x y assume x: "x \<in> eps_reach T (set S)" and "y \<in> set (epsilonStates T x)"
      then obtain row nextStates n where "map_of T (to_text x) = Some row"
        "map_of row [] = Some nextStates" "n \<in> set nextStates" "y = Str n"
        unfolding epsilonStates_iff by blast
      with x show "y \<in> eps_reach T (set S)" by (simp add: eps_reach.step)
    qed
  qed
next
  show "eps_reach T (set S) \<subseteq> set (epsilonClosure S T)"
  proof
    fix x assume "x \<in> eps_reach T (set S)"
    then show "x \<in> set (epsilonClosure S T)"
    proof induction
      case (base x)
      with epsilonClosure_input show ?case by blast
    next
      case (step x row nextStates y)
      then have "Str y \<in> set (epsilonStates T x)" unfolding epsilonStates_iff by blast
      with step.IH epsilonClosure_closed show ?case by blast
    qed
  qed
qed

lemma epsilonClosure_targets: "set (epsilonClosure S T) \<subseteq> set S \<union> Str ` all_targets T"
proof (rule epsilonClosure_least)
  show "set S \<subseteq> set S \<union> Str ` all_targets T" by simp
  show "\<forall>x\<in>set S \<union> Str ` all_targets T. set (epsilonStates T x) \<subseteq> set S \<union> Str ` all_targets T"
    using epsilonStates_subset by blast
qed

lemma epsilonClosure_Nil: "epsilonClosure [] T = []"
  by (simp add: epsilonClosure_def new_Set_def epsilonClosure_while_Nil)

subsection \<open>stateSetToString\<close>

text \<open>
  \<^verbatim>\<open>`{${states.sort().join(",")}}`\<close>. The default \<^verbatim>\<open>sort\<close> compares the strings that the elements
  convert to and keeps the order of elements that compare equal; \<^verbatim>\<open>join\<close> writes those strings.
  The call sorts the argument array in place, so after it the caller's array is
  \<open>sort_key to_text S\<close>.
\<close>

definition stateSetToString :: "jsval list \<Rightarrow> string" where
  "stateSetToString S = ''{'' @ join '','' (map to_text (sort_key to_text S)) @ ''}''"

subsection \<open>convertNFAtoDFA\<close>

text \<open>
  \<^verbatim>\<open>currentNfaStates.flatMap((state) => nfa.transitions[state]?.[symbol] || [])\<close>: the arrays
  and single values that the callback returns, in the order of the member states. A member
  that throws when read ends the conversion.
\<close>

fun flatMap_destinations :: "host \<Rightarrow> nfa_transitions \<Rightarrow> string \<Rightarrow> jsval list \<Rightarrow> error + jsval list" where
  "flatMap_destinations h T symbol [] = Inr []"
| "flatMap_destinations h T symbol (state # rest) =
     (case destinations h T state symbol of
        Inl e \<Rightarrow> Inl e
      | Inr found \<Rightarrow>
          (case flatMap_destinations h T symbol rest of
             Inl e \<Rightarrow> Inl e
           | Inr others \<Rightarrow> Inr (found @ others)))"

text \<open>The argument of \<^verbatim>\<open>stateSetToString\<close> inside the \<^verbatim>\<open>for\<close> loop, before it is sorted.\<close>

definition nextNfaStates :: "host \<Rightarrow> NFA \<Rightarrow> jsval list \<Rightarrow> string \<Rightarrow> error + jsval list" where
  "nextNfaStates h nfa currentNfaStates symbol =
     (case flatMap_destinations h (NFA.transitions nfa) symbol currentNfaStates of
        Inl e \<Rightarrow> Inl e
      | Inr found \<Rightarrow> Inr (epsilonClosure found (NFA.transitions nfa)))"

text \<open>
  \<^verbatim>\<open>row[name] = value\<close> on a plain object, for a string \<open>value\<close>: the name \<^verbatim>\<open>__proto__\<close> is the
  accessor of \<^verbatim>\<open>Object.prototype\<close>, whose setter ignores a string, so no entry is written.
\<close>

definition assign_property :: "(string \<rightharpoonup> string) \<Rightarrow> string \<Rightarrow> string \<Rightarrow> (string \<rightharpoonup> string)" where
  "assign_property row name v = (if name = ''__proto__'' then row else row(name \<mapsto> v))"

text \<open>
  The body of the \<^verbatim>\<open>for\<close> loop over the alphabet. \<^verbatim>\<open>dfaStates.set\<close> stores the array that
  \<^verbatim>\<open>stateSetToString\<close> has just sorted. Writing \<^verbatim>\<open>dfaTransitions[currentDfaState][symbol]\<close>
  throws when the row is missing.
\<close>

definition for_symbol_body :: "host \<Rightarrow> NFA \<Rightarrow> string \<Rightarrow> jsval list \<Rightarrow> string \<Rightarrow> conv_state \<Rightarrow> error + conv_state" where
  "for_symbol_body h nfa currentDfaState currentNfaStates symbol s =
     (case nextNfaStates h nfa currentNfaStates symbol of
        Inl e \<Rightarrow> Inl e
      | Inr next \<Rightarrow>
          if length next > 0 then
            (let nextDfaState = stateSetToString next;
                 s1 = (if nextDfaState \<notin> fst ` set (dfaStates s)
                       then s\<lparr>dfaQueue := dfaQueue s @ [nextDfaState],
                              dfaStates := dfaStates s @ [(nextDfaState, sort_key to_text next)]\<rparr>
                       else s)
             in case dfaTransitions s1 currentDfaState of
                  None \<Rightarrow> Inl TypeError
                | Some row \<Rightarrow>
                    Inr (s1\<lparr>dfaTransitions :=
                           (dfaTransitions s1)(currentDfaState \<mapsto>
                              assign_property row symbol nextDfaState)\<rparr>))
          else Inr s)"

fun for_symbols :: "host \<Rightarrow> NFA \<Rightarrow> string \<Rightarrow> jsval list \<Rightarrow> string list \<Rightarrow> conv_state \<Rightarrow> error + conv_state" where
  "for_symbols h nfa currentDfaState currentNfaStates [] s = Inr s"
| "for_symbols h nfa currentDfaState currentNfaStates (symbol # symbols) s =
     (case for_symbol_body h nfa currentDfaState currentNfaStates symbol s of
        Inl e \<Rightarrow> Inl e
      | Inr s' \<Rightarrow> for_symbols h nfa currentDfaState currentNfaStates symbols s')"

text \<open>\<^verbatim>\<open>nfa.acceptStates.has(state)\<close>: the accept set holds strings.\<close>

fun accept_has :: "string set \<Rightarrow> jsval \<Rightarrow> bool" where
  "accept_has A (Str name) = (name \<in> A)"
| "accept_has A (Ref i t) = False"

text \<open>
  The first half of an iteration of the \<^verbatim>\<open>while\<close> loop, once \<^verbatim>\<open>dfaQueue.shift()\<close> has given
  \<^verbatim>\<open>currentDfaState\<close> and \<^verbatim>\<open>dfaStates.get\<close> has given \<^verbatim>\<open>currentNfaStates\<close>: the accept mark and
  the fresh row of \<^verbatim>\<open>dfaTransitions\<close>.
\<close>

definition mark_and_reset :: "NFA \<Rightarrow> string \<Rightarrow> jsval list \<Rightarrow> conv_state \<Rightarrow> conv_state" where
  "mark_and_reset nfa currentDfaState currentNfaStates s =
     (let s1 = (if list_ex (accept_has (NFA.acceptStates nfa)) currentNfaStates
                then s\<lparr>dfaAcceptStates := set_add (dfaAcceptStates s) currentDfaState\<rparr>
                else s)
      in s1\<lparr>dfaTransitions := (dfaTransitions s1)(currentDfaState \<mapsto> Map.empty)\<rparr>)"

text \<open>
  One iteration of the \<^verbatim>\<open>while\<close> loop, entered with a non-empty queue. A key without an
  entry in \<^verbatim>\<open>dfaStates\<close> makes \<^verbatim>\<open>currentNfaStates\<close> undefined, and \<^verbatim>\<open>.some\<close> throws.
\<close>

definition while_body :: "host \<Rightarrow> NFA \<Rightarrow> string \<Rightarrow> conv_state \<Rightarrow> error + conv_state" where
  "while_body h nfa currentDfaState s =
     (case map_of (dfaStates s) currentDfaState of
        None \<Rightarrow> Inl TypeError
      | Some currentNfaStates \<Rightarrow>
          for_symbols h nfa currentDfaState currentNfaStates (NFA.alphabet nfa)
            (mark_and_reset nfa currentDfaState currentNfaStates s))"

text \<open>
  The values that a lookup can return, and the keys that the loop can ever create: the
  canonical strings of the repetition-free lists over those values. They only serve the
  termination measure.
\<close>

definition member_values :: "(string \<times> member) list \<Rightarrow> jsval list" where
  "member_values table = concat (map (\<lambda>(name, m). case m of Value v \<Rightarrow> [v] | Throws \<Rightarrow> []) table)"

definition lookup_values :: "host \<Rightarrow> nfa_transitions \<Rightarrow> jsval set" where
  "lookup_values h T =
     Str ` all_targets T \<union> set (map snd (object_prototype h))
       \<union> set (concat (map (\<lambda>(x, table). member_values table) (members h)))"

definition key_universe :: "host \<Rightarrow> nfa_transitions \<Rightarrow> string set" where
  "key_universe h T = stateSetToString ` {xs. set xs \<subseteq> lookup_values h T \<and> distinct xs}"

lemma finite_lookup_values: "finite (lookup_values h T)"
  unfolding lookup_values_def all_targets_def by (intro finite_UnI finite_imageI finite_set)

lemma finite_key_universe: "finite (key_universe h T)"
proof -
  have "finite {xs. set xs \<subseteq> lookup_values h T \<and> distinct xs}"
    using finite_lookup_values by (rule finite_subset_distinct)
  then show ?thesis unfolding key_universe_def by (rule finite_imageI)
qed

lemma inherited_value:
  assumes "inherited h name = Some x"
  shows "x \<in> lookup_values h T"
proof -
  from assms have "map_of (object_prototype h) name = Some x"
    by (simp add: inherited_def split: if_splits)
  then have "(name, x) \<in> set (object_prototype h)" by (rule map_of_SomeD)
  then have "x \<in> set (map snd (object_prototype h))" by force
  then show ?thesis unfolding lookup_values_def by simp
qed

lemma member_value:
  assumes "member_of h x name = Some (Value v)"
  shows "v \<in> lookup_values h T"
proof -
  from assms obtain table where t: "map_of (members h) x = Some table"
    and e: "map_of table name = Some (Value v)"
    by (auto simp: member_of_def split: if_splits option.splits)
  from e have "(name, Value v) \<in> set table" by (rule map_of_SomeD)
  then have "v \<in> set (member_values table)"
    unfolding member_values_def by force
  moreover from t have "(x, table) \<in> set (members h)" by (rule map_of_SomeD)
  ultimately have "v \<in> set (concat (map (\<lambda>(x, table). member_values table) (members h)))"
    by force
  then show ?thesis unfolding lookup_values_def by simp
qed

lemma destinations_subset:
  assumes "destinations h T state symbol = Inr found"
  shows "set found \<subseteq> lookup_values h T"
proof (cases "map_of T (to_text state)")
  case (Some row)
  note row = this
  show ?thesis
  proof (cases "map_of row symbol")
    case (Some ns)
    from own_entry_targets [OF row Some] have "Str ` set ns \<subseteq> lookup_values h T"
      unfolding lookup_values_def by blast
    moreover from assms row Some have "found = map Str ns" by (simp add: destinations_def)
    ultimately show ?thesis by simp
  next
    case None
    show ?thesis
    proof (cases "inherited h symbol")
      case None
      with assms row \<open>map_of row symbol = None\<close> show ?thesis by (simp add: destinations_def)
    next
      case (Some x)
      with assms row \<open>map_of row symbol = None\<close> have "found = [x]" by (simp add: destinations_def)
      with inherited_value [OF Some] show ?thesis by simp
    qed
  qed
next
  case None
  note norow = this
  show ?thesis
  proof (cases "inherited h (to_text state)")
    case None
    with assms norow show ?thesis by (simp add: destinations_def)
  next
    case (Some x)
    note x = this
    show ?thesis
    proof (cases "member_of h x symbol")
      case None
      with assms norow x show ?thesis by (simp add: destinations_def)
    next
      case (Some m)
      show ?thesis
      proof (cases m)
        case (Value v)
        with assms norow x Some have "found = [v]" by (simp add: destinations_def)
        moreover from Some Value have "v \<in> lookup_values h T" by (intro member_value) simp
        ultimately show ?thesis by simp
      next
        case Throws
        with assms norow x Some show ?thesis by (simp add: destinations_def)
      qed
    qed
  qed
qed

lemma flatMap_destinations_subset:
  "flatMap_destinations h T symbol sts = Inr found \<Longrightarrow> set found \<subseteq> lookup_values h T"
proof (induction sts arbitrary: found)
  case Nil
  then show ?case by simp
next
  case (Cons state rest)
  from Cons.prems obtain a where a: "destinations h T state symbol = Inr a"
    by (cases "destinations h T state symbol") simp_all
  with Cons.prems obtain b where b: "flatMap_destinations h T symbol rest = Inr b"
    by (cases "flatMap_destinations h T symbol rest") simp_all
  from Cons.prems a b have "found = a @ b" by simp
  with destinations_subset [OF a] Cons.IH [OF b] show ?case by simp
qed

lemma nextNfaStates_values:
  assumes "nextNfaStates h nfa currentNfaStates symbol = Inr next"
  shows "set next \<subseteq> lookup_values h (NFA.transitions nfa)"
proof -
  from assms obtain found where f: "flatMap_destinations h (NFA.transitions nfa) symbol currentNfaStates = Inr found"
    and n: "next = epsilonClosure found (NFA.transitions nfa)"
    unfolding nextNfaStates_def
    by (cases "flatMap_destinations h (NFA.transitions nfa) symbol currentNfaStates") auto
  from flatMap_destinations_subset [OF f] epsilonClosure_targets [of found "NFA.transitions nfa"]
  show ?thesis unfolding n lookup_values_def by blast
qed

lemma nextNfaStates_distinct:
  assumes "nextNfaStates h nfa currentNfaStates symbol = Inr next"
  shows "distinct next"
proof -
  from assms obtain found where "next = epsilonClosure found (NFA.transitions nfa)"
    unfolding nextNfaStates_def
    by (cases "flatMap_destinations h (NFA.transitions nfa) symbol currentNfaStates") auto
  then show ?thesis by (simp add: epsilonClosure_distinct)
qed

lemma nextNfaStates_key:
  assumes "nextNfaStates h nfa currentNfaStates symbol = Inr next"
  shows "stateSetToString next \<in> key_universe h (NFA.transitions nfa)"
  unfolding key_universe_def
  using nextNfaStates_values [OF assms] nextNfaStates_distinct [OF assms] by blast

lemma for_symbol_body_keys:
  assumes "for_symbol_body h nfa cur ns symbol s = Inr s'"
  shows "\<exists>new. map fst (dfaStates s') = map fst (dfaStates s) @ new
           \<and> dfaQueue s' = dfaQueue s @ new
           \<and> set new \<subseteq> key_universe h (NFA.transitions nfa) - fst ` set (dfaStates s)"
proof -
  from assms obtain nxt where nx: "nextNfaStates h nfa ns symbol = Inr nxt"
    unfolding for_symbol_body_def by (cases "nextNfaStates h nfa ns symbol") simp_all
  show ?thesis
  proof (cases "length nxt > 0 \<and> stateSetToString nxt \<notin> fst ` set (dfaStates s)")
    case True
    with assms nx have "map fst (dfaStates s') = map fst (dfaStates s) @ [stateSetToString nxt]
        \<and> dfaQueue s' = dfaQueue s @ [stateSetToString nxt]"
      by (auto simp: for_symbol_body_def Let_def split: option.splits)
    with True nextNfaStates_key [OF nx] show ?thesis by auto
  next
    case False
    with assms nx have "map fst (dfaStates s') = map fst (dfaStates s) \<and> dfaQueue s' = dfaQueue s"
      by (auto simp: for_symbol_body_def Let_def split: option.splits if_splits)
    then show ?thesis by (intro exI [of _ "[]"]) simp
  qed
qed

lemma for_symbols_keys:
  "for_symbols h nfa cur ns symbols s = Inr s' \<Longrightarrow>
   \<exists>new. map fst (dfaStates s') = map fst (dfaStates s) @ new
      \<and> dfaQueue s' = dfaQueue s @ new
      \<and> set new \<subseteq> key_universe h (NFA.transitions nfa) - fst ` set (dfaStates s)"
proof (induction symbols arbitrary: s)
  case Nil
  then have "map fst (dfaStates s') = map fst (dfaStates s) \<and> dfaQueue s' = dfaQueue s"
    by simp
  then show ?case by (intro exI [of _ "[]"]) simp
next
  case (Cons symbol symbols)
  from Cons.prems obtain s1 where s1: "for_symbol_body h nfa cur ns symbol s = Inr s1"
    and rest: "for_symbols h nfa cur ns symbols s1 = Inr s'"
    by (cases "for_symbol_body h nfa cur ns symbol s") simp_all
  from for_symbol_body_keys [OF s1] obtain new1 where n1:
    "map fst (dfaStates s1) = map fst (dfaStates s) @ new1" "dfaQueue s1 = dfaQueue s @ new1"
    "set new1 \<subseteq> key_universe h (NFA.transitions nfa) - fst ` set (dfaStates s)" by blast
  from Cons.IH [OF rest] obtain new2 where n2:
    "map fst (dfaStates s') = map fst (dfaStates s1) @ new2" "dfaQueue s' = dfaQueue s1 @ new2"
    "set new2 \<subseteq> key_universe h (NFA.transitions nfa) - fst ` set (dfaStates s1)" by blast
  have "fst ` set (dfaStates s) \<subseteq> fst ` set (dfaStates s1)"
    using n1(1) by (metis set_map set_append Un_upper1)
  with n2(3) have "set new2 \<subseteq> key_universe h (NFA.transitions nfa) - fst ` set (dfaStates s)" by blast
  with n1 n2 have "map fst (dfaStates s') = map fst (dfaStates s) @ (new1 @ new2)
      \<and> dfaQueue s' = dfaQueue s @ (new1 @ new2)
      \<and> set (new1 @ new2) \<subseteq> key_universe h (NFA.transitions nfa) - fst ` set (dfaStates s)"
    by simp
  then show ?case by (intro exI [of _ "new1 @ new2"])
qed

lemma mark_and_reset_fields:
  "dfaStates (mark_and_reset nfa cur ns s) = dfaStates s"
  "dfaQueue (mark_and_reset nfa cur ns s) = dfaQueue s"
  by (simp_all add: mark_and_reset_def Let_def)

lemma while_body_keys:
  assumes "while_body h nfa cur s = Inr s'"
  shows "\<exists>new. map fst (dfaStates s') = map fst (dfaStates s) @ new
           \<and> dfaQueue s' = dfaQueue s @ new
           \<and> set new \<subseteq> key_universe h (NFA.transitions nfa) - fst ` set (dfaStates s)"
proof -
  from assms obtain ns where
    "for_symbols h nfa cur ns (NFA.alphabet nfa) (mark_and_reset nfa cur ns s) = Inr s'"
    by (auto simp: while_body_def split: option.splits)
  from for_symbols_keys [OF this] show ?thesis by (simp add: mark_and_reset_fields)
qed

text \<open>
  The \<^verbatim>\<open>while (dfaQueue.length > 0)\<close> loop; \<^verbatim>\<open>shift\<close> takes the head of the queue.
\<close>

function while_queue :: "host \<Rightarrow> NFA \<Rightarrow> conv_state \<Rightarrow> error + conv_state" where
  "while_queue h nfa s =
     (case dfaQueue s of
        [] \<Rightarrow> Inr s
      | currentDfaState # queue \<Rightarrow>
          (case while_body h nfa currentDfaState (s\<lparr>dfaQueue := queue\<rparr>) of
             Inl e \<Rightarrow> Inl e
           | Inr s' \<Rightarrow> while_queue h nfa s'))"
  by pat_completeness auto
termination
proof (relation "inv_image (less_than <*lex*> less_than)
         (\<lambda>(h, nfa, s). (card (key_universe h (NFA.transitions nfa) - fst ` set (dfaStates s)),
                       length (dfaQueue s)))")
  show "wf (inv_image (less_than <*lex*> less_than)
         (\<lambda>(h, nfa, s). (card (key_universe h (NFA.transitions nfa) - fst ` set (dfaStates s)),
                       length (dfaQueue s))))"
    by (intro wf_inv_image wf_lex_prod wf_less_than)
next
  fix h :: host and nfa :: NFA and s s' :: conv_state and currentDfaState queue
  assume q: "dfaQueue s = currentDfaState # queue"
    and b: "while_body h nfa currentDfaState (s\<lparr>dfaQueue := queue\<rparr>) = Inr s'"
  let ?U = "key_universe h (NFA.transitions nfa)"
  from while_body_keys [OF b] obtain new where new:
    "map fst (dfaStates s') = map fst (dfaStates s) @ new" "dfaQueue s' = queue @ new"
    "set new \<subseteq> ?U - fst ` set (dfaStates s)" by auto
  from new(1) have keys: "fst ` set (dfaStates s') = fst ` set (dfaStates s) \<union> set new"
    by (metis set_map set_append)
  show "((h, nfa, s'), (h, nfa, s)) \<in> inv_image (less_than <*lex*> less_than)
         (\<lambda>(h, nfa, s). (card (key_universe h (NFA.transitions nfa) - fst ` set (dfaStates s)),
                       length (dfaQueue s)))"
  proof (cases "new = []")
    case True
    with keys new(2) q show ?thesis by simp
  next
    case False
    then obtain k where k: "k \<in> set new" by (cases new) auto
    with new(3) have "k \<in> ?U - fst ` set (dfaStates s)" by blast
    moreover from k keys have "k \<notin> ?U - fst ` set (dfaStates s')" by simp
    moreover from keys have "?U - fst ` set (dfaStates s') \<subseteq> ?U - fst ` set (dfaStates s)" by auto
    ultimately have "?U - fst ` set (dfaStates s') \<subset> ?U - fst ` set (dfaStates s)" by blast
    then have "card (?U - fst ` set (dfaStates s')) < card (?U - fst ` set (dfaStates s))"
      by (intro psubset_card_mono finite_Diff finite_key_universe)
    then show ?thesis by simp
  qed
qed

declare while_queue.simps [simp del]

text \<open>The state on entry to the loop (lines 22 to 30).\<close>

definition initial :: "NFA \<Rightarrow> conv_state" where
  "initial nfa =
     (let startState = epsilonClosure [Str (NFA.startState nfa)] (NFA.transitions nfa);
          startStateKey = stateSetToString startState
      in \<lparr>dfaStates = [(startStateKey, sort_key to_text startState)],
          dfaTransitions = Map.empty,
          dfaAcceptStates = [],
          dfaQueue = [startStateKey]\<rparr>)"

text \<open>
  The state when the loop has ended, and the \<^verbatim>\<open>DFA\<close> built from it. \<^verbatim>\<open>dfaStartState\<close> is
  \<^verbatim>\<open>startStateKey\<close>.
\<close>

definition convert_loop :: "host \<Rightarrow> NFA \<Rightarrow> error + conv_state" where
  "convert_loop h nfa = while_queue h nfa (initial nfa)"

definition convertNFAtoDFA :: "host \<Rightarrow> NFA \<Rightarrow> error + DFA" where
  "convertNFAtoDFA h nfa =
     (case convert_loop h nfa of
        Inl e \<Rightarrow> Inl e
      | Inr s \<Rightarrow>
          Inr \<lparr>states = map fst (dfaStates s),
               alphabet = NFA.alphabet nfa,
               transitions = dfaTransitions s,
               startState =
                 stateSetToString (epsilonClosure [Str (NFA.startState nfa)] (NFA.transitions nfa)),
               acceptStates = dfaAcceptStates s\<rparr>)"

subsection \<open>States of a run, and paths of the result\<close>

text \<open>
  \<open>loop_head h nfa s\<close>: the conversion of \<open>nfa\<close> reaches the test of the \<^verbatim>\<open>while\<close> loop in state
  \<open>s\<close>. \<open>dfa_reachable d k\<close>: the key \<open>k\<close> is reached from \<^verbatim>\<open>d.startState\<close> by following
  entries of \<^verbatim>\<open>d.transitions\<close>. \<open>throws_on h symbol\<close>: some runtime object has a member of
  that name that throws when read.
\<close>

inductive loop_head :: "host \<Rightarrow> NFA \<Rightarrow> conv_state \<Rightarrow> bool" for h :: host and nfa :: NFA where
  enter: "loop_head h nfa (initial nfa)"
| again: "loop_head h nfa s \<Longrightarrow> dfaQueue s = currentDfaState # queue \<Longrightarrow>
          while_body h nfa currentDfaState (s\<lparr>dfaQueue := queue\<rparr>) = Inr s' \<Longrightarrow> loop_head h nfa s'"

inductive dfa_reachable :: "DFA \<Rightarrow> string \<Rightarrow> bool" for d :: DFA where
  start: "dfa_reachable d (DFA.startState d)"
| follow: "dfa_reachable d k \<Longrightarrow> DFA.transitions d k = Some row \<Longrightarrow> row symbol = Some k' \<Longrightarrow>
           dfa_reachable d k'"

definition throws_on :: "host \<Rightarrow> string \<Rightarrow> bool" where
  "throws_on h symbol = list_ex (\<lambda>(x, table). map_of table symbol = Some Throws) (members h)"

text \<open>
  The canonical key in the words of the specification: the member names sorted, joined with
  commas, inside a pair of braces.
\<close>

fun comma_separated :: "string list \<Rightarrow> string" where
  "comma_separated [] = []"
| "comma_separated (x # xs) = x @ concat (map (\<lambda>y. '','' @ y) xs)"

definition canonical_key :: "string set \<Rightarrow> string" where
  "canonical_key names = ''{'' @ comma_separated (sorted_list_of_set names) @ ''}''"

text \<open>
  The destinations of a state on a symbol in the words of the specification: what the table
  declares for the pair, and nothing when it declares nothing.
\<close>

definition declared_destinations :: "nfa_transitions \<Rightarrow> string \<Rightarrow> string \<Rightarrow> string list" where
  "declared_destinations T state symbol =
     (case map_of T state of
        None \<Rightarrow> []
      | Some row \<Rightarrow> (case map_of row symbol of None \<Rightarrow> [] | Some nextStates \<Rightarrow> nextStates))"

subsection \<open>The invariant of the worklist loop\<close>

text \<open>
  An entry of \<^verbatim>\<open>dfaStates\<close> is in order when its list is not empty, has no repetition, is sorted
  by the strings of its elements, and its key is the canonical string of the list. The
  invariant is stated for the list \<open>P\<close> of the keys already dequeued.
\<close>

definition startKey :: "NFA \<Rightarrow> string" where
  "startKey nfa = stateSetToString (epsilonClosure [Str (NFA.startState nfa)] (NFA.transitions nfa))"

definition entry_ok :: "string \<times> jsval list \<Rightarrow> bool" where
  "entry_ok e \<longleftrightarrow>
     snd e \<noteq> [] \<and> distinct (snd e) \<and> sorted (map to_text (snd e))
     \<and> fst e = stateSetToString (snd e)"

definition inv_states :: "NFA \<Rightarrow> string list \<Rightarrow> conv_state \<Rightarrow> bool" where
  "inv_states nfa P s \<longleftrightarrow>
     map fst (dfaStates s) = P @ dfaQueue s
     \<and> distinct (map fst (dfaStates s))
     \<and> (\<forall>e\<in>set (dfaStates s). entry_ok e)
     \<and> take 1 (map fst (dfaStates s)) = [startKey nfa]"

definition inv_accept :: "NFA \<Rightarrow> string list \<Rightarrow> conv_state \<Rightarrow> bool" where
  "inv_accept nfa P s \<longleftrightarrow>
     distinct (dfaAcceptStates s)
     \<and> set (dfaAcceptStates s)
         = {k \<in> set P. \<exists>ns. (k, ns) \<in> set (dfaStates s)
                          \<and> (\<exists>x\<in>set ns. accept_has (NFA.acceptStates nfa) x)}"

definition loop_inv :: "NFA \<Rightarrow> string list \<Rightarrow> conv_state \<Rightarrow> bool" where
  "loop_inv nfa P s \<longleftrightarrow> inv_states nfa P s \<and> inv_accept nfa P s \<and> dom (dfaTransitions s) = set P"

text \<open>What one iteration of the outer loop does to a state whose key table is in order.\<close>

definition body_post :: "NFA \<Rightarrow> string \<Rightarrow> jsval list \<Rightarrow> string list \<Rightarrow> conv_state \<Rightarrow> conv_state \<Rightarrow> (string \<times> jsval list) list \<Rightarrow> bool" where
  "body_post nfa cur ns queue s s' new \<longleftrightarrow>
     (cur, ns) \<in> set (dfaStates s)
     \<and> dfaStates s' = dfaStates s @ new
     \<and> dfaQueue s' = queue @ map fst new
     \<and> dom (dfaTransitions s') = insert cur (dom (dfaTransitions s))
     \<and> dfaAcceptStates s' =
          (if \<exists>x\<in>set ns. accept_has (NFA.acceptStates nfa) x then set_add (dfaAcceptStates s) cur
           else dfaAcceptStates s)
     \<and> distinct (map fst (dfaStates s'))
     \<and> (\<forall>e\<in>set new. entry_ok e)"

lemma sort_key_eq_Nil: "sort_key f xs = [] \<longleftrightarrow> xs = []"
  by (metis length_0_conv length_sort)

lemma map_sort_key: "map f (sort_key f xs) = sort (map f xs)"
proof -
  have "mset (map f (sort_key f xs)) = mset (map f xs)" by simp
  moreover have "sorted (map f (sort_key f xs))" by simp
  ultimately show ?thesis by (rule properties_for_sort [symmetric])
qed

lemma stateSetToString_sort: "stateSetToString (sort_key to_text S) = stateSetToString S"
  by (simp add: stateSetToString_def sort_key_id_if_sorted)

lemma stateSetToString_set:
  assumes "distinct xs" and "distinct ys" and "set xs = set ys"
  shows "stateSetToString xs = stateSetToString ys"
proof -
  from assms have "mset xs = mset ys" by (simp add: set_eq_iff_mset_eq_distinct)
  then have "mset (map to_text xs) = mset (map to_text ys)" by simp
  then have "mset (sort (map to_text xs)) = mset (map to_text ys)" by simp
  then have "sort (map to_text ys) = sort (map to_text xs)"
    by (rule properties_for_sort) simp
  then have "sort (map to_text xs) = sort (map to_text ys)" by (rule sym)
  then show ?thesis by (simp add: stateSetToString_def map_sort_key)
qed

lemma new_entry_ok:
  assumes "nextNfaStates h nfa ns symbol = Inr nxt" and "nxt \<noteq> []"
  shows "entry_ok (stateSetToString nxt, sort_key to_text nxt)"
  unfolding entry_ok_def
  using assms(2) nextNfaStates_distinct [OF assms(1)]
  by (simp add: stateSetToString_sort sort_key_eq_Nil)

lemma dom_assign_property:
  "dom (m(cur \<mapsto> assign_property row symbol k)) = insert cur (dom m)"
  by simp

lemma for_symbol_body_post:
  assumes run: "for_symbol_body h nfa cur ns symbol s = Inr s'"
  shows "\<exists>new. dfaAcceptStates s' = dfaAcceptStates s
     \<and> dfaStates s' = dfaStates s @ new
     \<and> dfaQueue s' = dfaQueue s @ map fst new
     \<and> (cur \<in> dom (dfaTransitions s) \<longrightarrow> dom (dfaTransitions s') = dom (dfaTransitions s))
     \<and> (distinct (map fst (dfaStates s)) \<longrightarrow> distinct (map fst (dfaStates s')))
     \<and> (\<forall>e\<in>set new. entry_ok e)"
proof -
  from run obtain nxt where nx: "nextNfaStates h nfa ns symbol = Inr nxt"
    unfolding for_symbol_body_def by (cases "nextNfaStates h nfa ns symbol") simp_all
  show ?thesis
  proof (cases "nxt = []")
    case True
    with run nx have "s' = s" by (simp add: for_symbol_body_def)
    then show ?thesis by (intro exI [of _ "[]"]) simp
  next
    case False
    note ok = new_entry_ok [OF nx False]
    show ?thesis
    proof (cases "stateSetToString nxt \<in> fst ` set (dfaStates s)")
      case True
      from run nx False True obtain row where row: "dfaTransitions s cur = Some row"
        and s': "s' = s\<lparr>dfaTransitions :=
                   (dfaTransitions s)(cur \<mapsto> assign_property row symbol (stateSetToString nxt))\<rparr>"
        by (auto simp: for_symbol_body_def Let_def split: option.splits)
      from row have "insert cur (dom (dfaTransitions s)) = dom (dfaTransitions s)" by auto
      then show ?thesis unfolding s' by (intro exI [of _ "[]"]) simp
    next
      case k: False
      let ?s1 = "s\<lparr>dfaQueue := dfaQueue s @ [stateSetToString nxt],
                  dfaStates := dfaStates s @ [(stateSetToString nxt, sort_key to_text nxt)]\<rparr>"
      from run nx False k obtain row where row: "dfaTransitions s cur = Some row"
        and s': "s' = ?s1\<lparr>dfaTransitions :=
                   (dfaTransitions s)(cur \<mapsto> assign_property row symbol (stateSetToString nxt))\<rparr>"
        by (auto simp: for_symbol_body_def Let_def split: option.splits)
      from row have d: "insert cur (dom (dfaTransitions s)) = dom (dfaTransitions s)" by auto
      show ?thesis unfolding s'
        using k ok d by (intro exI [of _ "[(stateSetToString nxt, sort_key to_text nxt)]"]) simp
    qed
  qed
qed

lemma for_symbols_post:
  "for_symbols h nfa cur ns symbols s = Inr s' \<Longrightarrow>
   \<exists>new. dfaAcceptStates s' = dfaAcceptStates s
     \<and> dfaStates s' = dfaStates s @ new
     \<and> dfaQueue s' = dfaQueue s @ map fst new
     \<and> (cur \<in> dom (dfaTransitions s) \<longrightarrow> dom (dfaTransitions s') = dom (dfaTransitions s))
     \<and> (distinct (map fst (dfaStates s)) \<longrightarrow> distinct (map fst (dfaStates s')))
     \<and> (\<forall>e\<in>set new. entry_ok e)"
proof (induction symbols arbitrary: s)
  case Nil
  then have "s' = s" by simp
  then show ?case by (intro exI [of _ "[]"]) simp
next
  case (Cons symbol symbols)
  from Cons.prems obtain s1 where s1: "for_symbol_body h nfa cur ns symbol s = Inr s1"
    and rest: "for_symbols h nfa cur ns symbols s1 = Inr s'"
    by (cases "for_symbol_body h nfa cur ns symbol s") simp_all
  from for_symbol_body_post [OF s1] obtain new1 where n1:
    "dfaAcceptStates s1 = dfaAcceptStates s"
    "dfaStates s1 = dfaStates s @ new1"
    "dfaQueue s1 = dfaQueue s @ map fst new1"
    "cur \<in> dom (dfaTransitions s) \<longrightarrow> dom (dfaTransitions s1) = dom (dfaTransitions s)"
    "distinct (map fst (dfaStates s)) \<longrightarrow> distinct (map fst (dfaStates s1))"
    "\<forall>e\<in>set new1. entry_ok e" by blast
  from Cons.IH [OF rest] obtain new2 where n2:
    "dfaAcceptStates s' = dfaAcceptStates s1"
    "dfaStates s' = dfaStates s1 @ new2"
    "dfaQueue s' = dfaQueue s1 @ map fst new2"
    "cur \<in> dom (dfaTransitions s1) \<longrightarrow> dom (dfaTransitions s') = dom (dfaTransitions s1)"
    "distinct (map fst (dfaStates s1)) \<longrightarrow> distinct (map fst (dfaStates s'))"
    "\<forall>e\<in>set new2. entry_ok e" by blast
  have a: "dfaAcceptStates s' = dfaAcceptStates s" using n1(1) n2(1) by simp
  have b: "dfaStates s' = dfaStates s @ (new1 @ new2)" using n1(2) n2(2) by simp
  have c: "dfaQueue s' = dfaQueue s @ map fst (new1 @ new2)" using n1(3) n2(3) by simp
  have d: "cur \<in> dom (dfaTransitions s) \<longrightarrow> dom (dfaTransitions s') = dom (dfaTransitions s)"
    using n1(4) n2(4) by simp
  have e: "distinct (map fst (dfaStates s)) \<longrightarrow> distinct (map fst (dfaStates s'))"
    using n1(5) n2(5) by blast
  have f: "\<forall>e\<in>set (new1 @ new2). entry_ok e" using n1(6) n2(6) by auto
  from a b c d e f show ?case by (intro exI [of _ "new1 @ new2"] conjI)
qed

lemma while_body_spec:
  assumes keys: "map fst (dfaStates s) = P @ cur # queue"
    and dist: "distinct (map fst (dfaStates s))"
    and run: "while_body h nfa cur (s\<lparr>dfaQueue := queue\<rparr>) = Inr s'"
  shows "\<exists>ns new. body_post nfa cur ns queue s s' new"
proof -
  from keys have "cur \<in> fst ` set (dfaStates s)"
    by (metis in_set_conv_decomp set_map)
  then obtain ns where ns: "(cur, ns) \<in> set (dfaStates s)" by auto
  with dist have look: "map_of (dfaStates s) cur = Some ns" by simp
  define s2 where "s2 = mark_and_reset nfa cur ns (s\<lparr>dfaQueue := queue\<rparr>)"
  have s2: "dfaStates s2 = dfaStates s" "dfaQueue s2 = queue"
    "dfaTransitions s2 = (dfaTransitions s)(cur \<mapsto> Map.empty)"
    "dfaAcceptStates s2 = (if \<exists>x\<in>set ns. accept_has (NFA.acceptStates nfa) x
         then set_add (dfaAcceptStates s) cur else dfaAcceptStates s)"
    by (simp_all add: s2_def mark_and_reset_def Let_def list_ex_iff)
  from run look have "for_symbols h nfa cur ns (NFA.alphabet nfa) s2 = Inr s'"
    by (simp add: while_body_def s2_def)
  from for_symbols_post [OF this] obtain new where p:
    "dfaAcceptStates s' = dfaAcceptStates s2"
    "dfaStates s' = dfaStates s2 @ new"
    "dfaQueue s' = dfaQueue s2 @ map fst new"
    "cur \<in> dom (dfaTransitions s2) \<longrightarrow> dom (dfaTransitions s') = dom (dfaTransitions s2)"
    "distinct (map fst (dfaStates s2)) \<longrightarrow> distinct (map fst (dfaStates s'))"
    "\<forall>e\<in>set new. entry_ok e" by blast
  from p(4) have dm: "dom (dfaTransitions s') = insert cur (dom (dfaTransitions s))"
    unfolding s2(3) by simp
  from p(5) dist have di: "distinct (map fst (dfaStates s'))" unfolding s2(1) by blast
  have "body_post nfa cur ns queue s s' new"
    unfolding body_post_def
    using ns p(2) [unfolded s2(1)] p(3) [unfolded s2(2)] dm p(1) [unfolded s2(4)] di p(6)
    by (intro conjI)
  then show ?thesis by blast
qed

lemma body_postD:
  assumes "body_post nfa cur ns queue s s' new"
  shows "(cur, ns) \<in> set (dfaStates s)"
    and "dfaStates s' = dfaStates s @ new"
    and "dfaQueue s' = queue @ map fst new"
    and "dom (dfaTransitions s') = insert cur (dom (dfaTransitions s))"
    and "dfaAcceptStates s' =
          (if \<exists>x\<in>set ns. accept_has (NFA.acceptStates nfa) x then set_add (dfaAcceptStates s) cur
           else dfaAcceptStates s)"
    and "distinct (map fst (dfaStates s'))"
    and "\<forall>e\<in>set new. entry_ok e"
  using assms unfolding body_post_def by - (elim conjE, assumption)+

lemma inv_statesD:
  assumes "inv_states nfa P s"
  shows "map fst (dfaStates s) = P @ dfaQueue s"
    and "distinct (map fst (dfaStates s))"
    and "\<forall>e\<in>set (dfaStates s). entry_ok e"
    and "take 1 (map fst (dfaStates s)) = [startKey nfa]"
  using assms unfolding inv_states_def by - (elim conjE, assumption)+

lemma inv_acceptD:
  assumes "inv_accept nfa P s"
  shows "distinct (dfaAcceptStates s)"
    and "set (dfaAcceptStates s)
         = {k \<in> set P. \<exists>ns. (k, ns) \<in> set (dfaStates s)
                          \<and> (\<exists>x\<in>set ns. accept_has (NFA.acceptStates nfa) x)}"
  using assms unfolding inv_accept_def by - (elim conjE, assumption)+

lemma loop_invD:
  assumes "loop_inv nfa P s"
  shows "inv_states nfa P s" and "inv_accept nfa P s" and "dom (dfaTransitions s) = set P"
  using assms unfolding loop_inv_def by - (elim conjE, assumption)+

lemma old_entry:
  assumes "distinct (map fst (ds @ new))" and "e \<in> set (ds @ new)" and "fst e \<in> fst ` set ds"
  shows "e \<in> set ds"
proof -
  from assms(3) obtain e0 where e0: "e0 \<in> set ds" "fst e0 = fst e" by auto
  then have "(fst e, snd e0) \<in> set (ds @ new)" by (metis UnI1 prod.collapse set_append)
  moreover from assms(2) have "(fst e, snd e) \<in> set (ds @ new)" by simp
  ultimately have "snd e0 = snd e" using assms(1) by (rule eq_key_imp_eq_value [rotated])
  with e0 show ?thesis by (metis prod.collapse)
qed

lemma inv_states_step:
  assumes inv: "inv_states nfa P s" and q: "dfaQueue s = cur # queue"
    and post: "body_post nfa cur ns queue s s' new"
  shows "inv_states nfa (P @ [cur]) s'"
proof -
  note ds = body_postD(2) [OF post] and qs = body_postD(3) [OF post]
    and dist = body_postD(6) [OF post] and new = body_postD(7) [OF post]
  from inv_statesD(1) [OF inv] q have keys: "map fst (dfaStates s) = P @ cur # queue" by simp
  note ok = inv_statesD(3) [OF inv] and hd = inv_statesD(4) [OF inv]
  have a: "map fst (dfaStates s') = (P @ [cur]) @ dfaQueue s'"
    unfolding ds qs using keys by simp
  have b: "\<forall>e\<in>set (dfaStates s'). entry_ok e"
    unfolding ds using ok new by auto
  from keys have "dfaStates s \<noteq> []" by auto
  then have "take 1 (map fst (dfaStates s')) = take 1 (map fst (dfaStates s))"
    unfolding ds by (cases "dfaStates s") simp_all
  with hd a dist b show ?thesis unfolding inv_states_def by simp
qed

lemma inv_accept_step:
  assumes inv: "inv_states nfa P s" and ac: "inv_accept nfa P s" and q: "dfaQueue s = cur # queue"
    and post: "body_post nfa cur ns queue s s' new"
  shows "inv_accept nfa (P @ [cur]) s'"
proof -
  let ?acc = "\<lambda>ns. \<exists>x\<in>set ns. accept_has (NFA.acceptStates nfa) x"
  note cur = body_postD(1) [OF post] and ds = body_postD(2) [OF post]
    and dist = body_postD(6) [OF post] and a = body_postD(5) [OF post]
  from inv_statesD(1) [OF inv] q have keys: "map fst (dfaStates s) = P @ cur # queue" by simp
  from keys have Pk: "set P \<subseteq> fst ` set (dfaStates s)" by (metis set_map set_append Un_upper1)
  from inv_statesD(2) [OF inv] have curP: "cur \<notin> set P" unfolding keys by simp
  note d0 = inv_acceptD(1) [OF ac] and s0 = inv_acceptD(2) [OF ac]
  have d: "distinct (dfaAcceptStates s')" unfolding a using d0 by (simp add: set_add_distinct)
  have old: "(\<exists>ns'. (k, ns') \<in> set (dfaStates s') \<and> ?acc ns')
             \<longleftrightarrow> (\<exists>ns'. (k, ns') \<in> set (dfaStates s) \<and> ?acc ns')" if "k \<in> set P" for k
  proof
    assume "\<exists>ns'. (k, ns') \<in> set (dfaStates s') \<and> ?acc ns'"
    then obtain ns' where n: "(k, ns') \<in> set (dfaStates s')" "?acc ns'" by blast
    from that Pk have "fst (k, ns') \<in> fst ` set (dfaStates s)" by auto
    with dist n(1) have "(k, ns') \<in> set (dfaStates s)" unfolding ds by (rule old_entry)
    with n(2) show "\<exists>ns'. (k, ns') \<in> set (dfaStates s) \<and> ?acc ns'" by blast
  next
    assume "\<exists>ns'. (k, ns') \<in> set (dfaStates s) \<and> ?acc ns'"
    then show "\<exists>ns'. (k, ns') \<in> set (dfaStates s') \<and> ?acc ns'" unfolding ds by auto
  qed
  have curi: "(\<exists>ns'. (cur, ns') \<in> set (dfaStates s') \<and> ?acc ns') \<longleftrightarrow> ?acc ns"
  proof
    assume "\<exists>ns'. (cur, ns') \<in> set (dfaStates s') \<and> ?acc ns'"
    then obtain ns' where n: "(cur, ns') \<in> set (dfaStates s')" "?acc ns'" by blast
    from cur have "(cur, ns) \<in> set (dfaStates s')" unfolding ds by simp
    with n(1) dist have "ns' = ns" by (metis eq_key_imp_eq_value)
    with n(2) show "?acc ns" by simp
  next
    assume "?acc ns"
    moreover from cur have "(cur, ns) \<in> set (dfaStates s')" unfolding ds by simp
    ultimately show "\<exists>ns'. (cur, ns') \<in> set (dfaStates s') \<and> ?acc ns'" by blast
  qed
  have "set (dfaAcceptStates s')
      = {k \<in> set (P @ [cur]). \<exists>ns. (k, ns) \<in> set (dfaStates s') \<and> ?acc ns}" (is "?L = ?R")
  proof (rule set_eqI)
    fix k
    show "k \<in> ?L \<longleftrightarrow> k \<in> ?R"
    proof (cases "k = cur")
      case True
      with curi curP show ?thesis unfolding a by (simp add: set_add_set s0)
    next
      case False
      show ?thesis
      proof (cases "k \<in> set P")
        case True
        with old [OF True] False show ?thesis unfolding a by (simp add: set_add_set s0)
      next
        case kP: False
        with False show ?thesis unfolding a by (simp add: set_add_set s0)
      qed
    qed
  qed
  with d show ?thesis unfolding inv_accept_def by simp
qed

lemma loop_inv_step:
  assumes inv: "loop_inv nfa P s" and q: "dfaQueue s = cur # queue"
    and run: "while_body h nfa cur (s\<lparr>dfaQueue := queue\<rparr>) = Inr s'"
  shows "loop_inv nfa (P @ [cur]) s'"
proof -
  note i = loop_invD [OF inv]
  from inv_statesD(1) [OF i(1)] q have keys: "map fst (dfaStates s) = P @ cur # queue" by simp
  from while_body_spec [OF keys inv_statesD(2) [OF i(1)] run] obtain ns new where
    post: "body_post nfa cur ns queue s s' new" by blast
  have "dom (dfaTransitions s') = set (P @ [cur])"
    unfolding body_postD(4) [OF post] i(3) by simp
  with inv_states_step [OF i(1) q post] inv_accept_step [OF i(1) i(2) q post]
  show ?thesis unfolding loop_inv_def by (intro conjI)
qed

lemma initial_fields:
  "dfaStates (initial nfa) =
     [(startKey nfa, sort_key to_text (epsilonClosure [Str (NFA.startState nfa)] (NFA.transitions nfa)))]"
  "dfaQueue (initial nfa) = [startKey nfa]"
  "dfaTransitions (initial nfa) = Map.empty"
  "dfaAcceptStates (initial nfa) = []"
  by (simp_all add: initial_def startKey_def Let_def)

lemma loop_inv_initial: "loop_inv nfa [] (initial nfa)"
proof -
  let ?c = "epsilonClosure [Str (NFA.startState nfa)] (NFA.transitions nfa)"
  have "Str (NFA.startState nfa) \<in> set ?c"
    using epsilonClosure_input [of "[Str (NFA.startState nfa)]"] by simp
  then have ne: "sort_key to_text ?c \<noteq> []" by (auto simp: sort_key_eq_Nil)
  have ok: "entry_ok (startKey nfa, sort_key to_text ?c)"
    unfolding entry_ok_def using ne
    by (simp add: epsilonClosure_distinct stateSetToString_sort startKey_def)
  have a: "inv_states nfa [] (initial nfa)"
    unfolding inv_states_def using ok by (simp add: initial_fields)
  have d: "inv_accept nfa [] (initial nfa)"
    unfolding inv_accept_def by (simp add: initial_fields)
  have t: "dom (dfaTransitions (initial nfa)) = set []" by (simp add: initial_fields)
  from a d t show ?thesis unfolding loop_inv_def by (intro conjI)
qed

lemma loop_head_inv: "loop_head h nfa s \<Longrightarrow> \<exists>P. loop_inv nfa P s"
proof (induction rule: loop_head.induct)
  case enter
  show ?case using loop_inv_initial by blast
next
  case (again s cur queue s')
  from again.IH obtain P where "loop_inv nfa P s" by blast
  from loop_inv_step [OF this again.hyps(2) again.hyps(3)] show ?case by blast
qed

lemma while_queue_inv:
  "loop_inv nfa P s \<Longrightarrow> while_queue h nfa s = Inr s' \<Longrightarrow>
   dfaQueue s' = [] \<and> loop_inv nfa (map fst (dfaStates s')) s'"
proof (induction h nfa s arbitrary: P rule: while_queue.induct)
  case (1 h nfa s)
  show ?case
  proof (cases "dfaQueue s")
    case Nil
    from inv_statesD(1) [OF loop_invD(1) [OF "1.prems"(1)]] Nil have "map fst (dfaStates s) = P" by simp
    moreover have "while_queue h nfa s = Inr s"
      using Nil by (subst while_queue.simps) simp
    ultimately show ?thesis using Nil "1.prems" by simp
  next
    case (Cons cur queue)
    show ?thesis
    proof (cases "while_body h nfa cur (s\<lparr>dfaQueue := queue\<rparr>)")
      case (Inl e)
      with Cons have "while_queue h nfa s = Inl e" by (subst while_queue.simps) simp
      with "1.prems"(2) show ?thesis by simp
    next
      case (Inr s1)
      with Cons have "while_queue h nfa s = while_queue h nfa s1" by (subst while_queue.simps) simp
      with "1.prems"(2) have r: "while_queue h nfa s1 = Inr s'" by simp
      from loop_inv_step [OF "1.prems"(1) Cons Inr] have "loop_inv nfa (P @ [cur]) s1" .
      from "1.IH" [OF Cons Inr this r] show ?thesis .
    qed
  qed
qed

lemma while_queue_loop_head:
  "loop_head h nfa s \<Longrightarrow> while_queue h nfa s = Inr s' \<Longrightarrow> loop_head h nfa s'"
proof (induction h nfa s rule: while_queue.induct)
  case (1 h nfa s)
  show ?case
  proof (cases "dfaQueue s")
    case Nil
    then have "while_queue h nfa s = Inr s" by (subst while_queue.simps) simp
    with "1.prems" show ?thesis by simp
  next
    case (Cons cur queue)
    show ?thesis
    proof (cases "while_body h nfa cur (s\<lparr>dfaQueue := queue\<rparr>)")
      case (Inl e)
      with Cons have "while_queue h nfa s = Inl e" by (subst while_queue.simps) simp
      with "1.prems"(2) show ?thesis by simp
    next
      case (Inr s1)
      with Cons have "while_queue h nfa s = while_queue h nfa s1" by (subst while_queue.simps) simp
      with "1.prems"(2) have r: "while_queue h nfa s1 = Inr s'" by simp
      from "1.prems"(1) Cons Inr have "loop_head h nfa s1" by (rule loop_head.again)
      from "1.IH" [OF Cons Inr this r] show ?thesis .
    qed
  qed
qed

lemma convert_final:
  assumes "convert_loop h nfa = Inr s"
  shows "dfaQueue s = []" and "loop_head h nfa s"
    and "inv_states nfa (map fst (dfaStates s)) s" and "inv_accept nfa (map fst (dfaStates s)) s"
    and "dom (dfaTransitions s) = set (map fst (dfaStates s))"
proof -
  from assms have w: "while_queue h nfa (initial nfa) = Inr s" by (simp add: convert_loop_def)
  from while_queue_inv [OF loop_inv_initial w] have q: "dfaQueue s = []"
    and i: "loop_inv nfa (map fst (dfaStates s)) s" by blast+
  show "dfaQueue s = []" by (rule q)
  show "loop_head h nfa s" by (rule while_queue_loop_head [OF loop_head.enter w])
  show "inv_states nfa (map fst (dfaStates s)) s" by (rule loop_invD(1) [OF i])
  show "inv_accept nfa (map fst (dfaStates s)) s" by (rule loop_invD(2) [OF i])
  show "dom (dfaTransitions s) = set (map fst (dfaStates s))" by (rule loop_invD(3) [OF i])
qed

lemma convertNFAtoDFA_of_loop:
  assumes "convert_loop h nfa = Inr s"
  shows "convertNFAtoDFA h nfa =
     Inr \<lparr>states = map fst (dfaStates s), alphabet = NFA.alphabet nfa,
          transitions = dfaTransitions s, startState = startKey nfa,
          acceptStates = dfaAcceptStates s\<rparr>"
  using assms by (simp add: convertNFAtoDFA_def startKey_def)

lemma convertNFAtoDFA_loop:
  assumes "convertNFAtoDFA h nfa = Inr d"
  obtains s where "convert_loop h nfa = Inr s"
    and "d = \<lparr>states = map fst (dfaStates s), alphabet = NFA.alphabet nfa,
          transitions = dfaTransitions s, startState = startKey nfa,
          acceptStates = dfaAcceptStates s\<rparr>"
proof (cases "convert_loop h nfa")
  case (Inl e)
  with assms show ?thesis by (simp add: convertNFAtoDFA_def)
next
  case (Inr s)
  from convertNFAtoDFA_of_loop [OF Inr] assms Inr that show ?thesis by simp
qed

lemma canonical_distinct_sets:
  assumes d: "distinct (map fst ds)" and ok: "\<forall>e\<in>set ds. entry_ok e"
  shows "distinct (map (\<lambda>e. set (snd e)) ds)"
proof -
  from d have dd: "distinct ds" by (simp add: distinct_map)
  have "inj_on (\<lambda>e. set (snd e)) (set ds)"
  proof (rule inj_onI)
    fix e1 e2 assume e: "e1 \<in> set ds" "e2 \<in> set ds" and eq: "set (snd e1) = set (snd e2)"
    from e ok have o: "entry_ok e1" "entry_ok e2" by blast+
    then have "distinct (snd e1)" "distinct (snd e2)"
      unfolding entry_ok_def by blast+
    with eq have "stateSetToString (snd e1) = stateSetToString (snd e2)"
      by (intro stateSetToString_set)
    moreover from o have "fst e1 = stateSetToString (snd e1)" "fst e2 = stateSetToString (snd e2)"
      unfolding entry_ok_def by blast+
    ultimately have k: "fst e1 = fst e2" by simp
    from e(1) have m1: "(fst e1, snd e1) \<in> set ds" by simp
    from e(2) have "(fst e2, snd e2) \<in> set ds" by simp
    then have m2: "(fst e1, snd e2) \<in> set ds" by (simp only: k)
    from d m1 m2 have "snd e1 = snd e2" by (rule eq_key_imp_eq_value)
    with k show "e1 = e2" by (intro prod_eqI)
  qed
  with dd show ?thesis by (simp add: distinct_map)
qed

lemma for_symbols_canonical:
  assumes dist: "distinct (map fst (dfaStates s))" and ok: "\<forall>e\<in>set (dfaStates s). entry_ok e"
    and run: "for_symbols h nfa cur ns symbols s = Inr s'"
  shows "distinct (map fst (dfaStates s'))" and "\<forall>e\<in>set (dfaStates s'). entry_ok e"
proof -
  from for_symbols_post [OF run] obtain new where p:
    "dfaStates s' = dfaStates s @ new"
    "distinct (map fst (dfaStates s)) \<longrightarrow> distinct (map fst (dfaStates s'))"
    "\<forall>e\<in>set new. entry_ok e"
    by blast
  from p(2) dist show "distinct (map fst (dfaStates s'))" by blast
  from ok p(3) show "\<forall>e\<in>set (dfaStates s'). entry_ok e" unfolding p(1) by auto
qed

subsection \<open>When the conversion returns\<close>

lemma destinations_returns:
  assumes "\<not> throws_on h symbol"
  shows "\<exists>found. destinations h T state symbol = Inr found"
proof (cases "destinations h T state symbol")
  case (Inr found)
  then show ?thesis by blast
next
  case (Inl e)
  then obtain x where "member_of h x symbol = Some Throws"
    by (auto simp: destinations_def split: option.splits member.splits)
  then obtain table where t: "map_of (members h) x = Some table"
    and m: "map_of table symbol = Some Throws"
    by (auto simp: member_of_def split: if_splits option.splits)
  from t have "(x, table) \<in> set (members h)" by (rule map_of_SomeD)
  with m have "throws_on h symbol" unfolding throws_on_def list_ex_iff by blast
  with assms show ?thesis by simp
qed

lemma flatMap_destinations_returns:
  assumes "\<not> throws_on h symbol"
  shows "\<exists>found. flatMap_destinations h T symbol sts = Inr found"
proof (induction sts)
  case Nil
  show ?case by simp
next
  case (Cons state rest)
  from destinations_returns [OF assms] obtain a where "destinations h T state symbol = Inr a"
    by blast
  moreover from Cons.IH obtain b where "flatMap_destinations h T symbol rest = Inr b" by blast
  ultimately show ?case by simp
qed

lemma nextNfaStates_returns:
  assumes "\<not> throws_on h symbol"
  shows "\<exists>nxt. nextNfaStates h nfa ns symbol = Inr nxt"
proof -
  from flatMap_destinations_returns [OF assms] obtain found where
    "flatMap_destinations h (NFA.transitions nfa) symbol ns = Inr found" by blast
  then show ?thesis by (simp add: nextNfaStates_def)
qed

lemma for_symbol_body_returns:
  assumes "\<not> throws_on h symbol" and "dfaTransitions s cur = Some row"
  shows "\<exists>s' row'. for_symbol_body h nfa cur ns symbol s = Inr s' \<and> dfaTransitions s' cur = Some row'"
proof -
  from nextNfaStates_returns [OF assms(1)] obtain nxt where
    nx: "nextNfaStates h nfa ns symbol = Inr nxt" by blast
  show ?thesis
  proof (cases "nxt = []")
    case True
    with nx assms(2) show ?thesis by (simp add: for_symbol_body_def)
  next
    case False
    show ?thesis
    proof (cases "stateSetToString nxt \<in> fst ` set (dfaStates s)")
      case True
      with nx False assms(2) show ?thesis by (simp add: for_symbol_body_def Let_def)
    next
      case k: False
      with nx False assms(2) show ?thesis by (simp add: for_symbol_body_def Let_def)
    qed
  qed
qed

lemma for_symbols_returns:
  "\<forall>symbol\<in>set symbols. \<not> throws_on h symbol \<Longrightarrow> dfaTransitions s cur = Some row \<Longrightarrow>
   \<exists>s'. for_symbols h nfa cur ns symbols s = Inr s'"
proof (induction symbols arbitrary: s row)
  case Nil
  show ?case by simp
next
  case (Cons symbol symbols)
  from Cons.prems(1) have a: "\<not> throws_on h symbol"
    and b: "\<forall>symbol\<in>set symbols. \<not> throws_on h symbol" by simp_all
  from for_symbol_body_returns [OF a Cons.prems(2)] obtain s1 row1 where
    s1: "for_symbol_body h nfa cur ns symbol s = Inr s1" "dfaTransitions s1 cur = Some row1"
    by blast
  from Cons.IH [OF b s1(2)] obtain s' where "for_symbols h nfa cur ns symbols s1 = Inr s'" by blast
  with s1(1) show ?case by simp
qed

lemma while_body_returns:
  assumes keys: "map fst (dfaStates s) = P @ cur # queue"
    and dist: "distinct (map fst (dfaStates s))"
    and safe: "\<forall>symbol\<in>set (NFA.alphabet nfa). \<not> throws_on h symbol"
  shows "\<exists>s'. while_body h nfa cur (s\<lparr>dfaQueue := queue\<rparr>) = Inr s'"
proof -
  from keys have "cur \<in> fst ` set (dfaStates s)"
    by (metis in_set_conv_decomp set_map)
  then obtain ns where ns: "(cur, ns) \<in> set (dfaStates s)" by auto
  with dist have look: "map_of (dfaStates s) cur = Some ns" by simp
  have "dfaTransitions (mark_and_reset nfa cur ns (s\<lparr>dfaQueue := queue\<rparr>)) cur = Some Map.empty"
    by (simp add: mark_and_reset_def Let_def)
  from for_symbols_returns [OF safe this] obtain s' where
    "for_symbols h nfa cur ns (NFA.alphabet nfa) (mark_and_reset nfa cur ns (s\<lparr>dfaQueue := queue\<rparr>)) = Inr s'"
    by blast
  with look show ?thesis by (simp add: while_body_def)
qed

lemma while_queue_returns:
  "loop_inv nfa P s \<Longrightarrow> \<forall>symbol\<in>set (NFA.alphabet nfa). \<not> throws_on h symbol \<Longrightarrow>
   \<exists>s'. while_queue h nfa s = Inr s'"
proof (induction h nfa s arbitrary: P rule: while_queue.induct)
  case (1 h nfa s)
  show ?case
  proof (cases "dfaQueue s")
    case Nil
    then have "while_queue h nfa s = Inr s" by (subst while_queue.simps) simp
    then show ?thesis by blast
  next
    case (Cons cur queue)
    note i = loop_invD(1) [OF "1.prems"(1)]
    from inv_statesD(1) [OF i] Cons have keys: "map fst (dfaStates s) = P @ cur # queue" by simp
    from while_body_returns [OF keys inv_statesD(2) [OF i] "1.prems"(2)] obtain s1 where
      run: "while_body h nfa cur (s\<lparr>dfaQueue := queue\<rparr>) = Inr s1" by blast
    from loop_inv_step [OF "1.prems"(1) Cons run] have "loop_inv nfa (P @ [cur]) s1" .
    from "1.IH" [OF Cons run this "1.prems"(2)] obtain s' where "while_queue h nfa s1 = Inr s'"
      by blast
    moreover have "while_queue h nfa s = while_queue h nfa s1"
      using Cons run by (subst while_queue.simps) simp
    ultimately show ?thesis by simp
  qed
qed

lemma convert_loop_returns:
  assumes "\<forall>symbol\<in>set (NFA.alphabet nfa). \<not> throws_on h symbol"
  shows "\<exists>s. convert_loop h nfa = Inr s"
  unfolding convert_loop_def by (rule while_queue_returns [OF loop_inv_initial assms])

subsection \<open>A runtime and six automata\<close>

text \<open>
  \<open>v8_host\<close> lists the members of \<^verbatim>\<open>Object.prototype\<close> as the V8 engine has them, each function
  with the text V8 converts it to, and for two of the functions the members \<^verbatim>\<open>name\<close>,
  \<^verbatim>\<open>caller\<close> and \<^verbatim>\<open>arguments\<close>. Runtimes differ in those texts and in what else they define;
  the theorems that hold for every host do not depend on this one.
\<close>

definition v8_host :: host where
  "v8_host =
     \<lparr>object_prototype =
        [(''constructor'', Ref 1 ''function Object() { [native code] }''),
         (''__defineGetter__'', Ref 2 ''function __defineGetter__() { [native code] }''),
         (''__defineSetter__'', Ref 3 ''function __defineSetter__() { [native code] }''),
         (''hasOwnProperty'', Ref 4 ''function hasOwnProperty() { [native code] }''),
         (''__lookupGetter__'', Ref 5 ''function __lookupGetter__() { [native code] }''),
         (''__lookupSetter__'', Ref 6 ''function __lookupSetter__() { [native code] }''),
         (''isPrototypeOf'', Ref 7 ''function isPrototypeOf() { [native code] }''),
         (''propertyIsEnumerable'', Ref 8 ''function propertyIsEnumerable() { [native code] }''),
         (''toString'', Ref 9 ''function toString() { [native code] }''),
         (''valueOf'', Ref 10 ''function valueOf() { [native code] }''),
         (''__proto__'', Ref 0 ''[object Object]''),
         (''toLocaleString'', Ref 11 ''function toLocaleString() { [native code] }'')],
      members =
        [(Ref 1 ''function Object() { [native code] }'',
            [(''name'', Value (Str ''Object'')), (''caller'', Throws), (''arguments'', Throws)]),
         (Ref 9 ''function toString() { [native code] }'',
            [(''name'', Value (Str ''toString'')), (''caller'', Throws), (''arguments'', Throws)])]\<rparr>"

text \<open>The three-state example of the README and of the comment at the end of \<^verbatim>\<open>script.js\<close>.\<close>

definition example_nfa :: NFA where
  "example_nfa =
     \<lparr>NFA.states = [''q0'', ''q1'', ''q2''],
      alphabet = [''a'', ''b''],
      transitions = [(''q0'', [(''a'', [''q0'', ''q1'']), (''b'', [''q0''])]),
                     (''q1'', [(''a'', [''q2''])])],
      startState = ''q0'',
      acceptStates = {''q2''}\<rparr>"

text \<open>An automaton whose start state has an epsilon transition.\<close>

definition epsilon_nfa :: NFA where
  "epsilon_nfa =
     \<lparr>NFA.states = [''q0'', ''q1'', ''q2''],
      alphabet = [''a''],
      transitions = [(''q1'', [([], [''q0'']), (''a'', [''q2''])])],
      startState = ''q1'',
      acceptStates = {''q2''}\<rparr>"

text \<open>
  Automata whose alphabet or state names are names of members of \<^verbatim>\<open>Object.prototype\<close>:
  \<^verbatim>\<open>new NFA(["p","q"], ["__proto__","a"], {p: {a: ["q"]}}, "p", new Set(["q"]))\<close>,
  \<^verbatim>\<open>new NFA(["p","q"], ["constructor"], {p: {a: ["q"]}}, "p", new Set(["q"]))\<close> and
  \<^verbatim>\<open>new NFA(["constructor"], ["name"], {}, "constructor", new Set())\<close>.
\<close>

definition proto_symbol_nfa :: NFA where
  "proto_symbol_nfa =
     \<lparr>NFA.states = [''p'', ''q''],
      alphabet = [''__proto__'', ''a''],
      transitions = [(''p'', [(''a'', [''q''])])],
      startState = ''p'',
      acceptStates = {''q''}\<rparr>"

definition constructor_symbol_nfa :: NFA where
  "constructor_symbol_nfa =
     \<lparr>NFA.states = [''p'', ''q''],
      alphabet = [''constructor''],
      transitions = [(''p'', [(''a'', [''q''])])],
      startState = ''p'',
      acceptStates = {''q''}\<rparr>"

definition constructor_state_nfa :: NFA where
  "constructor_state_nfa =
     \<lparr>NFA.states = [''constructor''],
      alphabet = [''name''],
      transitions = [],
      startState = ''constructor'',
      acceptStates = {}\<rparr>"

text \<open>
  An automaton whose state is named as a member of \<^verbatim>\<open>Object.prototype\<close> and whose symbol names
  a member of that function that throws when read:
  \<^verbatim>\<open>new NFA(["toString"], ["caller"], {}, "toString", new Set())\<close>.
\<close>

definition toString_state_nfa :: NFA where
  "toString_state_nfa =
     \<lparr>NFA.states = [''toString''],
      alphabet = [''caller''],
      transitions = [],
      startState = ''toString'',
      acceptStates = {}\<rparr>"

lemmas eval_simps = epsilonClosure_def epsilonClosure_while.simps new_Set_def set_add_def
  destinations_def epsilonStates_def inherited_def member_of_def stateSetToString_def
  nextNfaStates_def assign_property_def for_symbol_body_def mark_and_reset_def
  while_body_def while_queue.simps initial_def convert_loop_def convertNFAtoDFA_def Let_def

section \<open>Runs on the examples\<close>

text \<open>
  The final value of the local variables on each automaton in the V8 runtime, computed from the
  definitions.
\<close>

lemma example_loop:
  "convert_loop v8_host example_nfa =
     Inr \<lparr>dfaStates = [(''{q0}'', [Str ''q0'']), (''{q0,q1}'', [Str ''q0'', Str ''q1'']),
                      (''{q0,q1,q2}'', [Str ''q0'', Str ''q1'', Str ''q2''])],
          dfaTransitions =
            [''{q0}'' \<mapsto> [''a'' \<mapsto> ''{q0,q1}'', ''b'' \<mapsto> ''{q0}''],
             ''{q0,q1}'' \<mapsto> [''a'' \<mapsto> ''{q0,q1,q2}'', ''b'' \<mapsto> ''{q0}''],
             ''{q0,q1,q2}'' \<mapsto> [''a'' \<mapsto> ''{q0,q1,q2}'', ''b'' \<mapsto> ''{q0}'']],
          dfaAcceptStates = [''{q0,q1,q2}''],
          dfaQueue = []\<rparr>"
  by (simp add: example_nfa_def v8_host_def eval_simps)

lemma example_initial:
  "initial example_nfa =
     \<lparr>dfaStates = [(''{q0}'', [Str ''q0''])], dfaTransitions = Map.empty,
      dfaAcceptStates = [], dfaQueue = [''{q0}'']\<rparr>"
  by (simp add: example_nfa_def eval_simps)

lemma epsilon_loop:
  "convert_loop v8_host epsilon_nfa =
     Inr \<lparr>dfaStates = [(''{q0,q1}'', [Str ''q0'', Str ''q1'']), (''{q2}'', [Str ''q2''])],
          dfaTransitions = [''{q0,q1}'' \<mapsto> [''a'' \<mapsto> ''{q2}''], ''{q2}'' \<mapsto> Map.empty],
          dfaAcceptStates = [''{q2}''],
          dfaQueue = []\<rparr>"
  by (simp add: epsilon_nfa_def v8_host_def eval_simps)

lemma epsilon_closure:
  "epsilonClosure [Str ''q1''] (NFA.transitions epsilon_nfa) = [Str ''q1'', Str ''q0'']"
  by (simp add: epsilon_nfa_def eval_simps)

lemma proto_symbol_loop:
  "convert_loop v8_host proto_symbol_nfa =
     Inr \<lparr>dfaStates = [(''{p}'', [Str ''p'']), (''{[object Object]}'', [Ref 0 ''[object Object]'']),
                      (''{q}'', [Str ''q''])],
          dfaTransitions =
            [''{p}'' \<mapsto> [''a'' \<mapsto> ''{q}''], ''{[object Object]}'' \<mapsto> Map.empty,
             ''{q}'' \<mapsto> Map.empty],
          dfaAcceptStates = [''{q}''],
          dfaQueue = []\<rparr>"
  by (simp add: proto_symbol_nfa_def v8_host_def eval_simps)

lemma constructor_symbol_loop:
  "convert_loop v8_host constructor_symbol_nfa =
     Inr \<lparr>dfaStates = [(''{p}'', [Str ''p'']),
                      (''{function Object() { [native code] }}'',
                       [Ref 1 ''function Object() { [native code] }''])],
          dfaTransitions =
            [''{p}'' \<mapsto> [''constructor'' \<mapsto> ''{function Object() { [native code] }}''],
             ''{function Object() { [native code] }}'' \<mapsto> Map.empty],
          dfaAcceptStates = [],
          dfaQueue = []\<rparr>"
  by (simp add: constructor_symbol_nfa_def v8_host_def eval_simps)

lemma constructor_state_loop:
  "convert_loop v8_host constructor_state_nfa =
     Inr \<lparr>dfaStates = [(''{constructor}'', [Str ''constructor'']), (''{Object}'', [Str ''Object''])],
          dfaTransitions =
            [''{constructor}'' \<mapsto> [''name'' \<mapsto> ''{Object}''], ''{Object}'' \<mapsto> Map.empty],
          dfaAcceptStates = [],
          dfaQueue = []\<rparr>"
  by (simp add: constructor_state_nfa_def v8_host_def eval_simps)

lemma toString_state_loop: "convert_loop v8_host toString_state_nfa = Inl TypeError"
  by (simp add: toString_state_nfa_def v8_host_def eval_simps)

lemma v8_throws_on: "throws_on v8_host symbol \<longleftrightarrow> symbol = ''caller'' \<or> symbol = ''arguments''"
  by (auto simp: throws_on_def v8_host_def)

section \<open>The code against the words of the specification\<close>

lemma join_comma_separated: "join '','' xs = comma_separated xs"
  by (induction "'',''" xs rule: join.induct) simp_all

lemma closure_names:
  fixes nfa :: NFA
  defines "L \<equiv> epsilonClosure [Str (NFA.startState nfa)] (NFA.transitions nfa)"
  defines "names \<equiv> {n. Str n \<in> set L}"
  shows "Str ` names = set L" and "startKey nfa = canonical_key names"
    and "Str ` names = eps_reach (NFA.transitions nfa) {Str (NFA.startState nfa)}"
proof -
  have sub: "set L \<subseteq> Str ` insert (NFA.startState nfa) (all_targets (NFA.transitions nfa))"
    using epsilonClosure_targets [of "[Str (NFA.startState nfa)]" "NFA.transitions nfa"]
    unfolding L_def by auto
  show img: "Str ` names = set L"
  proof
    show "Str ` names \<subseteq> set L" unfolding names_def by auto
    show "set L \<subseteq> Str ` names"
    proof
      fix v assume v: "v \<in> set L"
      with sub obtain n where "v = Str n" by blast
      with v show "v \<in> Str ` names" unfolding names_def by simp
    qed
  qed
  have dist: "distinct L" unfolding L_def by (rule epsilonClosure_distinct)
  have str: "Str (to_text v) = v" if "v \<in> set L" for v
  proof -
    from sub that have "v \<in> Str ` insert (NFA.startState nfa) (all_targets (NFA.transitions nfa))"
      by (rule subsetD)
    then obtain n where "v = Str n" by (rule imageE)
    then show ?thesis by simp
  qed
  have "inj_on to_text (set L)"
  proof (rule inj_onI)
    fix v w assume a: "v \<in> set L" and b: "w \<in> set L" and c: "to_text v = to_text w"
    have "v = Str (to_text v)" using str [OF a] by (rule sym)
    also have "\<dots> = Str (to_text w)" by (simp only: c)
    also have "\<dots> = w" by (rule str [OF b])
    finally show "v = w" .
  qed
  with dist have d: "distinct (map to_text L)" by (simp add: distinct_map)
  have s: "set (map to_text L) = names"
  proof (rule set_eqI)
    fix n
    show "n \<in> set (map to_text L) \<longleftrightarrow> n \<in> names"
    proof
      assume "n \<in> set (map to_text L)"
      then obtain v where v: "v \<in> set L" "n = to_text v" by auto
      from str [OF v(1)] v(1) have "Str (to_text v) \<in> set L" by (simp only:)
      then show "n \<in> names" unfolding names_def v(2) by simp
    next
      assume "n \<in> names"
      then have "Str n \<in> set L" unfolding names_def by simp
      then have "to_text (Str n) \<in> to_text ` set L" by (rule imageI)
      then show "n \<in> set (map to_text L)" by simp
    qed
  qed
  then have fin: "finite names" by (metis List.finite_set)
  have "sort (map to_text L) = sorted_list_of_set names"
    using d s fin by (intro sorted_distinct_set_unique) simp_all
  then show "startKey nfa = canonical_key names"
    unfolding startKey_def canonical_key_def stateSetToString_def L_def [symmetric]
    by (simp add: map_sort_key join_comma_separated)
  show "Str ` names = eps_reach (NFA.transitions nfa) {Str (NFA.startState nfa)}"
    unfolding img L_def epsilonClosure_eps_reach by simp
qed

lemma canonical_key_q0_q1: "canonical_key {''q0'', ''q1''} = ''{q0,q1}''"
  by (simp add: canonical_key_def)

lemma destinations_declared:
  assumes "inherited h symbol = None" and "inherited h (to_text state) = None"
  shows "destinations h T state symbol = Inr (map Str (declared_destinations T (to_text state) symbol))"
  using assms by (simp add: destinations_def declared_destinations_def split: option.splits)

section \<open>Verified properties\<close>

text \<open>
  C1. On the three-state example (states \<open>q0\<close>, \<open>q1\<close>, \<open>q2\<close>; alphabet \<open>a\<close>, \<open>b\<close>; transitions
  \<open>q0-a->{q0,q1}\<close>, \<open>q0-b->{q0}\<close>, \<open>q1-a->{q2}\<close>; start \<open>q0\<close>; accept \<open>{q2}\<close>) the conversion
  returns, without error, the DFA with start key \<open>{q0}\<close>, the state keys \<open>{q0}\<close>, \<open>{q0,q1}\<close>,
  \<open>{q0,q1,q2}\<close> in this order of discovery, the six listed transitions and nothing else, and
  the single accepting key \<open>{q0,q1,q2}\<close>. It does so in the V8 runtime, and in every runtime
  whose \<^verbatim>\<open>Object.prototype\<close> has no member named \<open>q2\<close> or \<open>b\<close>, the two names that the run looks
  up there (\<open>q2\<close> has no row, and the row of \<open>q1\<close> has no entry for \<open>b\<close>).
\<close>

theorem C1_example_dfa:
  "convertNFAtoDFA v8_host example_nfa =
     Inr \<lparr>states = [''{q0}'', ''{q0,q1}'', ''{q0,q1,q2}''],
          alphabet = [''a'', ''b''],
          transitions =
            [''{q0}'' \<mapsto> [''a'' \<mapsto> ''{q0,q1}'', ''b'' \<mapsto> ''{q0}''],
             ''{q0,q1}'' \<mapsto> [''a'' \<mapsto> ''{q0,q1,q2}'', ''b'' \<mapsto> ''{q0}''],
             ''{q0,q1,q2}'' \<mapsto> [''a'' \<mapsto> ''{q0,q1,q2}'', ''b'' \<mapsto> ''{q0}'']],
          startState = ''{q0}'',
          acceptStates = [''{q0,q1,q2}'']\<rparr>
   \<and> (\<forall>h. inherited h ''q2'' = None \<and> inherited h ''b'' = None \<longrightarrow>
          convertNFAtoDFA h example_nfa =
     Inr \<lparr>states = [''{q0}'', ''{q0,q1}'', ''{q0,q1,q2}''],
          alphabet = [''a'', ''b''],
          transitions =
            [''{q0}'' \<mapsto> [''a'' \<mapsto> ''{q0,q1}'', ''b'' \<mapsto> ''{q0}''],
             ''{q0,q1}'' \<mapsto> [''a'' \<mapsto> ''{q0,q1,q2}'', ''b'' \<mapsto> ''{q0}''],
             ''{q0,q1,q2}'' \<mapsto> [''a'' \<mapsto> ''{q0,q1,q2}'', ''b'' \<mapsto> ''{q0}'']],
          startState = ''{q0}'',
          acceptStates = [''{q0,q1,q2}'']\<rparr>)"
proof (intro conjI allI impI)
  show "convertNFAtoDFA v8_host example_nfa =
     Inr \<lparr>states = [''{q0}'', ''{q0,q1}'', ''{q0,q1,q2}''],
          alphabet = [''a'', ''b''],
          transitions =
            [''{q0}'' \<mapsto> [''a'' \<mapsto> ''{q0,q1}'', ''b'' \<mapsto> ''{q0}''],
             ''{q0,q1}'' \<mapsto> [''a'' \<mapsto> ''{q0,q1,q2}'', ''b'' \<mapsto> ''{q0}''],
             ''{q0,q1,q2}'' \<mapsto> [''a'' \<mapsto> ''{q0,q1,q2}'', ''b'' \<mapsto> ''{q0}'']],
          startState = ''{q0}'',
          acceptStates = [''{q0,q1,q2}'']\<rparr>"
    by (simp add: example_nfa_def v8_host_def eval_simps)
next
  fix h assume "inherited h ''q2'' = None \<and> inherited h ''b'' = None"
  then show "convertNFAtoDFA h example_nfa =
     Inr \<lparr>states = [''{q0}'', ''{q0,q1}'', ''{q0,q1,q2}''],
          alphabet = [''a'', ''b''],
          transitions =
            [''{q0}'' \<mapsto> [''a'' \<mapsto> ''{q0,q1}'', ''b'' \<mapsto> ''{q0}''],
             ''{q0,q1}'' \<mapsto> [''a'' \<mapsto> ''{q0,q1,q2}'', ''b'' \<mapsto> ''{q0}''],
             ''{q0,q1,q2}'' \<mapsto> [''a'' \<mapsto> ''{q0,q1,q2}'', ''b'' \<mapsto> ''{q0}'']],
          startState = ''{q0}'',
          acceptStates = [''{q0,q1,q2}'']\<rparr>"
    by (simp add: example_nfa_def epsilonClosure_def epsilonClosure_while.simps new_Set_def
        set_add_def destinations_def epsilonStates_def stateSetToString_def nextNfaStates_def
        assign_property_def for_symbol_body_def mark_and_reset_def while_body_def
        while_queue.simps initial_def convert_loop_def convertNFAtoDFA_def Let_def)
qed

text \<open>
  The second part in a runtime whose \<^verbatim>\<open>Object.prototype\<close> has a member named \<open>a\<close>: the rows of
  \<open>q0\<close> and \<open>q1\<close> have an own entry for \<open>a\<close> and \<open>q2\<close> has no row, so the member is never read
  and the result is the same.
\<close>

theorem C1_witness:
  "inherited \<lparr>object_prototype = [(''a'', Ref 0 ''[object Object]'')], members = []\<rparr> ''q2'' = None
   \<and> inherited \<lparr>object_prototype = [(''a'', Ref 0 ''[object Object]'')], members = []\<rparr> ''b'' = None
   \<and> convertNFAtoDFA \<lparr>object_prototype = [(''a'', Ref 0 ''[object Object]'')], members = []\<rparr>
        example_nfa =
     Inr \<lparr>states = [''{q0}'', ''{q0,q1}'', ''{q0,q1,q2}''],
          alphabet = [''a'', ''b''],
          transitions =
            [''{q0}'' \<mapsto> [''a'' \<mapsto> ''{q0,q1}'', ''b'' \<mapsto> ''{q0}''],
             ''{q0,q1}'' \<mapsto> [''a'' \<mapsto> ''{q0,q1,q2}'', ''b'' \<mapsto> ''{q0}''],
             ''{q0,q1,q2}'' \<mapsto> [''a'' \<mapsto> ''{q0,q1,q2}'', ''b'' \<mapsto> ''{q0}'']],
          startState = ''{q0}'',
          acceptStates = [''{q0,q1,q2}'']\<rparr>"
proof -
  let ?h = "\<lparr>object_prototype = [(''a'', Ref 0 ''[object Object]'')], members = []\<rparr>"
  have a: "inherited ?h ''q2'' = None \<and> inherited ?h ''b'' = None" by (simp add: inherited_def)
  note c = C1_example_dfa [THEN conjunct2, THEN spec, of ?h, THEN mp, OF a]
  from a c show ?thesis by (intro conjI) (rule conjunct1, assumption, rule conjunct2, assumption)
qed

text \<open>
  C2. For every input list \<open>S\<close> and table \<open>T\<close>, the set of \<open>epsilonClosure S T\<close> contains every
  input state, is closed under the destinations listed under the empty symbol, and is included
  in every set that contains \<open>S\<close> and is closed in that way: it is the smallest such set. A
  state without an entry in \<open>T\<close> has no epsilon destinations. The set is also the inductively
  defined set \<open>eps_reach\<close> of the states reachable from \<open>S\<close> by the epsilon entries of the table,
  and in every runtime the lookup \<open>destinations\<close> of the conversion finds the same list for the
  empty symbol. For any other symbol, a state without an entry in \<open>T\<close> has no destinations when
  its name is not the name of a member of \<^verbatim>\<open>Object.prototype\<close>.
\<close>

theorem C2_epsilonClosure_smallest_closed:
  "set S \<subseteq> set (epsilonClosure S T)
   \<and> (\<forall>s\<in>set (epsilonClosure S T). set (epsilonStates T s) \<subseteq> set (epsilonClosure S T))
   \<and> (\<forall>X. set S \<subseteq> X \<and> (\<forall>s\<in>X. set (epsilonStates T s) \<subseteq> X)
          \<longrightarrow> set (epsilonClosure S T) \<subseteq> X)
   \<and> (\<forall>s. map_of T (to_text s) = None \<longrightarrow> epsilonStates T s = [])
   \<and> set (epsilonClosure S T) = eps_reach T (set S)
   \<and> (\<forall>h s. destinations h T s [] = Inr (epsilonStates T s))
   \<and> (\<forall>h s symbol. map_of T (to_text s) = None \<and> inherited h (to_text s) = None
          \<longrightarrow> destinations h T s symbol = Inr [])"
proof (intro conjI allI impI)
  show "set (epsilonClosure S T) = eps_reach T (set S)" by (rule epsilonClosure_eps_reach)
next
  show "set S \<subseteq> set (epsilonClosure S T)" by (rule epsilonClosure_input)
  show "\<forall>s\<in>set (epsilonClosure S T). set (epsilonStates T s) \<subseteq> set (epsilonClosure S T)"
    by (rule epsilonClosure_closed)
next
  fix X assume "set S \<subseteq> X \<and> (\<forall>s\<in>X. set (epsilonStates T s) \<subseteq> X)"
  then show "set (epsilonClosure S T) \<subseteq> X" by (intro epsilonClosure_least) simp_all
next
  fix s assume "map_of T (to_text s) = None"
  then show "epsilonStates T s = []" by (simp add: epsilonStates_def)
next
  fix h s show "destinations h T s [] = Inr (epsilonStates T s)" by (rule destinations_epsilon)
next
  fix h s symbol assume "map_of T (to_text s) = None \<and> inherited h (to_text s) = None"
  then show "destinations h T s symbol = Inr []" by (simp add: destinations_def)
qed

text \<open>
  The statement at \<open>S = [q0]\<close> and the table with the single epsilon transition from \<open>q0\<close> to
  \<open>q1\<close>: the closure is \<open>{q0, q1}\<close>, and \<open>q2\<close>, which has no entry, has no epsilon destinations
  and, in the V8 runtime, no destinations on \<open>a\<close>.
\<close>

theorem C2_witness:
  "set (epsilonClosure [Str ''q0''] [(''q0'', [([], [''q1''])])]) = {Str ''q0'', Str ''q1''}
   \<and> map_of [(''q0'', [([], [''q1''])])] (to_text (Str ''q2''))
       = (None :: (string \<times> string list) list option)
   \<and> epsilonStates [(''q0'', [([], [''q1''])])] (Str ''q2'') = []
   \<and> inherited v8_host (to_text (Str ''q2'')) = None
   \<and> destinations v8_host [(''q0'', [([], [''q1''])])] (Str ''q2'') ''a'' = Inr []"
proof -
  let ?T = "[(''q0'', [([], [''q1''])])]"
  let ?C = "set (epsilonClosure [Str ''q0''] ?T)"
  note c = C2_epsilonClosure_smallest_closed [of "[Str ''q0'']" ?T]
  note c1 = c [THEN conjunct1]
    and c2 = c [THEN conjunct2, THEN conjunct1]
    and c3 = c [THEN conjunct2, THEN conjunct2, THEN conjunct1, rule_format]
    and c4 = c [THEN conjunct2, THEN conjunct2, THEN conjunct2, THEN conjunct1, rule_format]
    and c7 = c [THEN conjunct2, THEN conjunct2, THEN conjunct2, THEN conjunct2, THEN conjunct2,
                THEN conjunct2, THEN spec, THEN spec, THEN spec, THEN mp]
  have d0: "epsilonStates ?T (Str ''q0'') = [Str ''q1'']" by (simp add: epsilonStates_def)
  have d1: "epsilonStates ?T (Str ''q1'') = []" by (simp add: epsilonStates_def)
  have none: "map_of ?T (to_text (Str ''q2'')) = None" by simp
  from c1 have q0: "Str ''q0'' \<in> ?C" by simp
  from c2 q0 have "set (epsilonStates ?T (Str ''q0'')) \<subseteq> ?C" by (rule bspec)
  then have q1: "Str ''q1'' \<in> ?C" unfolding d0 by simp
  have h: "set [Str ''q0''] \<subseteq> {Str ''q0'', Str ''q1''}
           \<and> (\<forall>s\<in>{Str ''q0'', Str ''q1''}. set (epsilonStates ?T s) \<subseteq> {Str ''q0'', Str ''q1''})"
    using d0 d1 by simp
  from h have up: "?C \<subseteq> {Str ''q0'', Str ''q1''}" by (rule c3)
  from none have e: "epsilonStates ?T (Str ''q2'') = []" by (rule c4)
  have inh: "inherited v8_host (to_text (Str ''q2'')) = None"
    by (simp add: inherited_def v8_host_def)
  from none inh have "map_of ?T (to_text (Str ''q2'')) = None
      \<and> inherited v8_host (to_text (Str ''q2'')) = None" by (rule conjI)
  then have g: "destinations v8_host ?T (Str ''q2'') ''a'' = Inr []" by (rule c7)
  from q0 q1 up have "?C = {Str ''q0'', Str ''q1''}" by (intro equalityI subsetI) auto
  with none e inh g show ?thesis by (intro conjI)
qed

text \<open>
  C3. Whenever the conversion returns a DFA, for every key of its \<open>states\<close> list the key is in
  \<open>acceptStates\<close> exactly when the list of NFA states recorded for the key in \<^verbatim>\<open>dfaStates\<close> has
  a member in the accept set of the NFA; no other key is accepting. The conversion returns a
  DFA in every runtime in which no symbol of the alphabet names a member that throws when it
  is read.
\<close>

theorem C3_acceptance:
  "(convert_loop h nfa = Inr s \<longrightarrow>
      (\<exists>d. convertNFAtoDFA h nfa = Inr d
         \<and> DFA.states d = map fst (dfaStates s)
         \<and> (\<forall>k\<in>set (DFA.states d). \<exists>ns. map_of (dfaStates s) k = Some ns
               \<and> (k \<in> set (DFA.acceptStates d)
                    \<longleftrightarrow> (\<exists>x\<in>set ns. accept_has (NFA.acceptStates nfa) x)))
         \<and> set (DFA.acceptStates d) \<subseteq> set (DFA.states d)))
   \<and> ((\<forall>symbol\<in>set (NFA.alphabet nfa). \<not> throws_on h symbol)
        \<longrightarrow> (\<exists>r. convert_loop h nfa = Inr r))"
proof (intro conjI impI)
  assume "\<forall>symbol\<in>set (NFA.alphabet nfa). \<not> throws_on h symbol"
  then show "\<exists>r. convert_loop h nfa = Inr r" by (rule convert_loop_returns)
next
  assume s: "convert_loop h nfa = Inr s"
  note st = convert_final(3) [OF s] and ac = convert_final(4) [OF s]
  define d where "d = \<lparr>states = map fst (dfaStates s), alphabet = NFA.alphabet nfa,
          transitions = dfaTransitions s, startState = startKey nfa,
          acceptStates = dfaAcceptStates s\<rparr>"
  have d: "convertNFAtoDFA h nfa = Inr d" unfolding d_def by (rule convertNFAtoDFA_of_loop [OF s])
  have f: "DFA.states d = map fst (dfaStates s)" "DFA.acceptStates d = dfaAcceptStates s"
    by (simp_all add: d_def)
  note dist = inv_statesD(2) [OF st] and acc = inv_acceptD(2) [OF ac]
  have a: "\<exists>ns. map_of (dfaStates s) k = Some ns
           \<and> (k \<in> set (DFA.acceptStates d)
                \<longleftrightarrow> (\<exists>x\<in>set ns. accept_has (NFA.acceptStates nfa) x))"
    if k: "k \<in> set (DFA.states d)" for k
  proof -
    from k obtain ns where ns: "(k, ns) \<in> set (dfaStates s)" unfolding f by auto
    with dist have look: "map_of (dfaStates s) k = Some ns" by simp
    have "k \<in> set (dfaAcceptStates s) \<longleftrightarrow> (\<exists>x\<in>set ns. accept_has (NFA.acceptStates nfa) x)"
    proof
      assume "k \<in> set (dfaAcceptStates s)"
      then obtain ns' where n: "(k, ns') \<in> set (dfaStates s)"
        "\<exists>x\<in>set ns'. accept_has (NFA.acceptStates nfa) x"
        unfolding acc by blast
      from dist n(1) ns have "ns' = ns" by (rule eq_key_imp_eq_value)
      with n(2) show "\<exists>x\<in>set ns. accept_has (NFA.acceptStates nfa) x" by simp
    next
      assume "\<exists>x\<in>set ns. accept_has (NFA.acceptStates nfa) x"
      with ns k show "k \<in> set (dfaAcceptStates s)" unfolding acc f by blast
    qed
    with look show ?thesis unfolding f by blast
  qed
  have b: "set (DFA.acceptStates d) \<subseteq> set (DFA.states d)" unfolding f acc by blast
  from d f(1) a b show "\<exists>d. convertNFAtoDFA h nfa = Inr d
         \<and> DFA.states d = map fst (dfaStates s)
         \<and> (\<forall>k\<in>set (DFA.states d). \<exists>ns. map_of (dfaStates s) k = Some ns
               \<and> (k \<in> set (DFA.acceptStates d)
                    \<longleftrightarrow> (\<exists>x\<in>set ns. accept_has (NFA.acceptStates nfa) x)))
         \<and> set (DFA.acceptStates d) \<subseteq> set (DFA.states d)" by blast
qed

text \<open>
  The statement on the three-state example: \<open>{q0,q1,q2}\<close> is recorded with \<open>q2\<close> among its members
  and is accepting, \<open>{q0}\<close> is recorded without an accepting member and is not.
\<close>

theorem C3_witness:
  "\<exists>s d. convert_loop v8_host example_nfa = Inr s \<and> convertNFAtoDFA v8_host example_nfa = Inr d
     \<and> ''{q0,q1,q2}'' \<in> set (DFA.states d)
     \<and> map_of (dfaStates s) ''{q0,q1,q2}'' = Some [Str ''q0'', Str ''q1'', Str ''q2'']
     \<and> accept_has (NFA.acceptStates example_nfa) (Str ''q2'')
     \<and> ''{q0,q1,q2}'' \<in> set (DFA.acceptStates d)
     \<and> ''{q0}'' \<in> set (DFA.states d)
     \<and> map_of (dfaStates s) ''{q0}'' = Some [Str ''q0'']
     \<and> ''{q0}'' \<notin> set (DFA.acceptStates d)"
proof -
  have safe: "\<forall>symbol\<in>set (NFA.alphabet example_nfa). \<not> throws_on v8_host symbol"
    by (simp add: example_nfa_def v8_throws_on)
  note c = C3_acceptance [of v8_host example_nfa]
  from c [THEN conjunct2, THEN mp, OF safe] obtain s where
    s: "convert_loop v8_host example_nfa = Inr s" by blast
  from c [of s, THEN conjunct1, THEN mp, OF s] obtain d where
    d: "convertNFAtoDFA v8_host example_nfa = Inr d"
    and st: "DFA.states d = map fst (dfaStates s)"
    and all: "\<forall>k\<in>set (DFA.states d). \<exists>ns. map_of (dfaStates s) k = Some ns
           \<and> (k \<in> set (DFA.acceptStates d)
                \<longleftrightarrow> (\<exists>x\<in>set ns. accept_has (NFA.acceptStates example_nfa) x))"
    by blast
  from s have ds: "dfaStates s = [(''{q0}'', [Str ''q0'']), (''{q0,q1}'', [Str ''q0'', Str ''q1'']),
                      (''{q0,q1,q2}'', [Str ''q0'', Str ''q1'', Str ''q2''])]"
    unfolding example_loop by auto
  have k2: "''{q0,q1,q2}'' \<in> set (DFA.states d)" unfolding st ds by simp
  have k0: "''{q0}'' \<in> set (DFA.states d)" unfolding st ds by simp
  have m2: "map_of (dfaStates s) ''{q0,q1,q2}'' = Some [Str ''q0'', Str ''q1'', Str ''q2'']"
    unfolding ds by simp
  have m0: "map_of (dfaStates s) ''{q0}'' = Some [Str ''q0'']" unfolding ds by simp
  have acc: "accept_has (NFA.acceptStates example_nfa) (Str ''q2'')" by (simp add: example_nfa_def)
  from all k2 obtain ns where "map_of (dfaStates s) ''{q0,q1,q2}'' = Some ns"
    "''{q0,q1,q2}'' \<in> set (DFA.acceptStates d)
       \<longleftrightarrow> (\<exists>x\<in>set ns. accept_has (NFA.acceptStates example_nfa) x)"
    by blast
  with m2 acc have a2: "''{q0,q1,q2}'' \<in> set (DFA.acceptStates d)" by simp
  from all k0 obtain ns where "map_of (dfaStates s) ''{q0}'' = Some ns"
    "''{q0}'' \<in> set (DFA.acceptStates d)
       \<longleftrightarrow> (\<exists>x\<in>set ns. accept_has (NFA.acceptStates example_nfa) x)"
    by blast
  with m0 have a0: "''{q0}'' \<notin> set (DFA.acceptStates d)" by (simp add: example_nfa_def)
  from s d k2 m2 acc a2 k0 m0 a0 show ?thesis by blast
qed

text \<open>
  C4. Whenever a run reaches the test of the \<^verbatim>\<open>while\<close> statement, after any number \<open>n\<close> of
  iterations of the \<^verbatim>\<open>for\<close> statement inside an iteration, and in the final state from which
  the DFA is built, no two entries of \<^verbatim>\<open>dfaStates\<close> have the same set of NFA states. The body
  records and enqueues nothing when the key it computed is already a key of \<^verbatim>\<open>dfaStates\<close>, and
  the keys of the returned \<open>states\<close> list are pairwise different. The conversion returns a DFA
  in every runtime in which no symbol of the alphabet names a member that throws when it is
  read.
\<close>

theorem C4_no_duplicate_state_sets:
  "(loop_head h nfa s \<longrightarrow> distinct (map (\<lambda>e. set (snd e)) (dfaStates s)))
   \<and> (loop_head h nfa s \<and> dfaQueue s = currentDfaState # queue
        \<and> map_of (dfaStates s) currentDfaState = Some currentNfaStates
        \<and> for_symbols h nfa currentDfaState currentNfaStates (take n (NFA.alphabet nfa))
              (mark_and_reset nfa currentDfaState currentNfaStates (s\<lparr>dfaQueue := queue\<rparr>)) = Inr s'
      \<longrightarrow> distinct (map (\<lambda>e. set (snd e)) (dfaStates s')))
   \<and> (for_symbol_body h nfa k ns symbol t = Inr t'
        \<and> nextNfaStates h nfa ns symbol = Inr found
        \<and> stateSetToString found \<in> fst ` set (dfaStates t)
      \<longrightarrow> dfaStates t' = dfaStates t \<and> dfaQueue t' = dfaQueue t)
   \<and> (convert_loop h nfa = Inr r \<longrightarrow>
        (\<exists>d. convertNFAtoDFA h nfa = Inr d \<and> loop_head h nfa r
           \<and> DFA.states d = map fst (dfaStates r) \<and> distinct (DFA.states d)
           \<and> distinct (map (\<lambda>e. set (snd e)) (dfaStates r))))
   \<and> ((\<forall>symbol\<in>set (NFA.alphabet nfa). \<not> throws_on h symbol)
        \<longrightarrow> (\<exists>r. convert_loop h nfa = Inr r))"
proof (intro conjI impI)
  assume "\<forall>symbol\<in>set (NFA.alphabet nfa). \<not> throws_on h symbol"
  then show "\<exists>r. convert_loop h nfa = Inr r" by (rule convert_loop_returns)
next
  assume "loop_head h nfa s"
  then obtain P where "loop_inv nfa P s" using loop_head_inv by blast
  note i = loop_invD(1) [OF this]
  from inv_statesD(2,3) [OF i] show "distinct (map (\<lambda>e. set (snd e)) (dfaStates s))"
    by (rule canonical_distinct_sets)
next
  assume a: "loop_head h nfa s \<and> dfaQueue s = currentDfaState # queue
        \<and> map_of (dfaStates s) currentDfaState = Some currentNfaStates
        \<and> for_symbols h nfa currentDfaState currentNfaStates (take n (NFA.alphabet nfa))
              (mark_and_reset nfa currentDfaState currentNfaStates (s\<lparr>dfaQueue := queue\<rparr>)) = Inr s'"
  let ?s2 = "mark_and_reset nfa currentDfaState currentNfaStates (s\<lparr>dfaQueue := queue\<rparr>)"
  from a have "loop_head h nfa s" by (rule conjunct1)
  then obtain P where "loop_inv nfa P s" using loop_head_inv by blast
  note i = loop_invD(1) [OF this]
  have ds: "dfaStates ?s2 = dfaStates s" by (simp add: mark_and_reset_fields)
  note run = a [THEN conjunct2, THEN conjunct2, THEN conjunct2]
  from inv_statesD(2) [OF i] have d2: "distinct (map fst (dfaStates ?s2))" unfolding ds .
  from inv_statesD(3) [OF i] have o2: "\<forall>e\<in>set (dfaStates ?s2). entry_ok e" unfolding ds .
  from for_symbols_canonical [OF d2 o2 run]
  show "distinct (map (\<lambda>e. set (snd e)) (dfaStates s'))" by (rule canonical_distinct_sets)
next
  assume a: "for_symbol_body h nfa k ns symbol t = Inr t'
        \<and> nextNfaStates h nfa ns symbol = Inr found
        \<and> stateSetToString found \<in> fst ` set (dfaStates t)"
  note run = a [THEN conjunct1] and nx = a [THEN conjunct2, THEN conjunct1]
    and seen = a [THEN conjunct2, THEN conjunct2]
  have both: "dfaStates t' = dfaStates t \<and> dfaQueue t' = dfaQueue t"
  proof (cases "found = []")
    case True
    with run nx show ?thesis by (simp add: for_symbol_body_def)
  next
    case False
    with run nx seen obtain row where
      "t' = t\<lparr>dfaTransitions :=
              (dfaTransitions t)(k \<mapsto> assign_property row symbol (stateSetToString found))\<rparr>"
      by (auto simp: for_symbol_body_def Let_def split: option.splits)
    then show ?thesis by simp
  qed
  from both show "dfaStates t' = dfaStates t" by (rule conjunct1)
  from both show "dfaQueue t' = dfaQueue t" by (rule conjunct2)
next
  assume r: "convert_loop h nfa = Inr r"
  note hd = convert_final(2) [OF r] and st = convert_final(3) [OF r]
  define d where "d = \<lparr>states = map fst (dfaStates r), alphabet = NFA.alphabet nfa,
          transitions = dfaTransitions r, startState = startKey nfa,
          acceptStates = dfaAcceptStates r\<rparr>"
  have d: "convertNFAtoDFA h nfa = Inr d" unfolding d_def by (rule convertNFAtoDFA_of_loop [OF r])
  have f: "DFA.states d = map fst (dfaStates r)" by (simp add: d_def)
  from inv_statesD(2) [OF st] have a: "distinct (DFA.states d)" unfolding f .
  from inv_statesD(2,3) [OF st] have b: "distinct (map (\<lambda>e. set (snd e)) (dfaStates r))"
    by (rule canonical_distinct_sets)
  from d hd f a b
  show "\<exists>d. convertNFAtoDFA h nfa = Inr d \<and> loop_head h nfa r
           \<and> DFA.states d = map fst (dfaStates r) \<and> distinct (DFA.states d)
           \<and> distinct (map (\<lambda>e. set (snd e)) (dfaStates r))" by blast
qed

text \<open>
  The statement on the three-state example: on entry, after the symbol \<open>a\<close> of the first
  iteration, at the symbol \<open>b\<close> whose key \<open>{q0}\<close> is already known, and at the end.
\<close>

theorem C4_witness:
  "loop_head v8_host example_nfa (initial example_nfa)
   \<and> distinct (map (\<lambda>e. set (snd e)) (dfaStates (initial example_nfa)))
   \<and> dfaQueue (initial example_nfa) = [''{q0}'']
   \<and> map_of (dfaStates (initial example_nfa)) ''{q0}'' = Some [Str ''q0'']
   \<and> (\<exists>s'. for_symbols v8_host example_nfa ''{q0}'' [Str ''q0''] (take 1 (NFA.alphabet example_nfa))
                (mark_and_reset example_nfa ''{q0}'' [Str ''q0''] ((initial example_nfa)\<lparr>dfaQueue := []\<rparr>))
              = Inr s'
          \<and> distinct (map (\<lambda>e. set (snd e)) (dfaStates s'))
          \<and> nextNfaStates v8_host example_nfa [Str ''q0''] ''b'' = Inr [Str ''q0'']
          \<and> stateSetToString [Str ''q0''] \<in> fst ` set (dfaStates s')
          \<and> (\<exists>t'. for_symbol_body v8_host example_nfa ''{q0}'' [Str ''q0''] ''b'' s' = Inr t'
                 \<and> dfaStates t' = dfaStates s' \<and> dfaQueue t' = dfaQueue s'))
   \<and> (\<exists>r d. convert_loop v8_host example_nfa = Inr r \<and> convertNFAtoDFA v8_host example_nfa = Inr d
          \<and> distinct (DFA.states d) \<and> distinct (map (\<lambda>e. set (snd e)) (dfaStates r)))"
proof -
  define mid where "mid = \<lparr>dfaStates = [(''{q0}'', [Str ''q0'']), (''{q0,q1}'', [Str ''q0'', Str ''q1''])],
      dfaTransitions = [''{q0}'' \<mapsto> [''a'' \<mapsto> ''{q0,q1}'']],
      dfaAcceptStates = [], dfaQueue = [''{q0,q1}'']\<rparr>"
  define fin where "fin = mid\<lparr>dfaTransitions :=
      [''{q0}'' \<mapsto> [''a'' \<mapsto> ''{q0,q1}'', ''b'' \<mapsto> ''{q0}'']]\<rparr>"
  have h: "loop_head v8_host example_nfa (initial example_nfa)" by (rule loop_head.enter)
  have q: "dfaQueue (initial example_nfa) = [''{q0}'']" unfolding example_initial by simp
  have m: "map_of (dfaStates (initial example_nfa)) ''{q0}'' = Some [Str ''q0'']"
    unfolding example_initial by simp
  have run: "for_symbols v8_host example_nfa ''{q0}'' [Str ''q0''] (take 1 (NFA.alphabet example_nfa))
                (mark_and_reset example_nfa ''{q0}'' [Str ''q0''] ((initial example_nfa)\<lparr>dfaQueue := []\<rparr>))
              = Inr mid"
    unfolding example_initial mid_def by (simp add: example_nfa_def v8_host_def eval_simps)
  have nx: "nextNfaStates v8_host example_nfa [Str ''q0''] ''b'' = Inr [Str ''q0'']"
    by (simp add: example_nfa_def v8_host_def eval_simps)
  have seen: "stateSetToString [Str ''q0''] \<in> fst ` set (dfaStates mid)"
    unfolding mid_def by (simp add: eval_simps)
  have body: "for_symbol_body v8_host example_nfa ''{q0}'' [Str ''q0''] ''b'' mid = Inr fin"
    unfolding mid_def fin_def by (simp add: example_nfa_def v8_host_def eval_simps)
  have safe: "\<forall>symbol\<in>set (NFA.alphabet example_nfa). \<not> throws_on v8_host symbol"
    by (simp add: example_nfa_def v8_throws_on)
  note c = C4_no_duplicate_state_sets [of v8_host example_nfa "initial example_nfa" "''{q0}''" "[]"
      "[Str ''q0'']" 1 mid "''{q0}''" "[Str ''q0'']" "''b''" mid fin "[Str ''q0'']"]
  note c1 = c [THEN conjunct1, THEN mp]
    and c2 = c [THEN conjunct2, THEN conjunct1, THEN mp]
    and c3 = c [THEN conjunct2, THEN conjunct2, THEN conjunct1, THEN mp]
    and c4 = c [THEN conjunct2, THEN conjunct2, THEN conjunct2, THEN conjunct1, THEN mp]
    and c5 = c [THEN conjunct2, THEN conjunct2, THEN conjunct2, THEN conjunct2, THEN mp, OF safe]
  from h have a: "distinct (map (\<lambda>e. set (snd e)) (dfaStates (initial example_nfa)))" by (rule c1)
  from h q m run have b: "distinct (map (\<lambda>e. set (snd e)) (dfaStates mid))"
    by (intro c2 conjI)
  from body nx seen have e: "dfaStates fin = dfaStates mid \<and> dfaQueue fin = dfaQueue mid"
    by (intro c3 conjI)
  from run b nx seen body e have mid: "\<exists>s'. for_symbols v8_host example_nfa ''{q0}'' [Str ''q0''] (take 1 (NFA.alphabet example_nfa))
                (mark_and_reset example_nfa ''{q0}'' [Str ''q0''] ((initial example_nfa)\<lparr>dfaQueue := []\<rparr>))
              = Inr s'
          \<and> distinct (map (\<lambda>e. set (snd e)) (dfaStates s'))
          \<and> nextNfaStates v8_host example_nfa [Str ''q0''] ''b'' = Inr [Str ''q0'']
          \<and> stateSetToString [Str ''q0''] \<in> fst ` set (dfaStates s')
          \<and> (\<exists>t'. for_symbol_body v8_host example_nfa ''{q0}'' [Str ''q0''] ''b'' s' = Inr t'
                 \<and> dfaStates t' = dfaStates s' \<and> dfaQueue t' = dfaQueue s')"
    by (intro exI [of _ mid] exI [of _ fin] conjI) simp_all
  from c5 obtain r where r: "convert_loop v8_host example_nfa = Inr r" by blast
  from c4 [of r, OF r] r have f: "\<exists>r d. convert_loop v8_host example_nfa = Inr r \<and> convertNFAtoDFA v8_host example_nfa = Inr d
          \<and> distinct (DFA.states d) \<and> distinct (map (\<lambda>e. set (snd e)) (dfaStates r))"
    by blast
  from h a q m mid f show ?thesis by (intro conjI)
qed

text \<open>
  C5. Whenever the conversion returns a DFA, its \<open>startState\<close> is the canonical key, in the
  words of the specification (the names sorted, joined by commas, inside braces), of the set
  of the states reachable from the NFA start state by the epsilon entries of the table; the
  start state itself is in that set. Before the first iteration this key is the only entry of
  \<^verbatim>\<open>dfaStates\<close>, recorded with exactly these states, and the only element of the queue, and it is
  the first key of the returned \<open>states\<close> list. The conversion returns a DFA in every runtime in
  which no symbol of the alphabet names a member that throws when it is read.
\<close>

theorem C5_start_state:
  "(convertNFAtoDFA h nfa = Inr d \<longrightarrow>
      (\<exists>names L. Str ` names = eps_reach (NFA.transitions nfa) {Str (NFA.startState nfa)}
         \<and> NFA.startState nfa \<in> names
         \<and> DFA.startState d = canonical_key names
         \<and> dfaStates (initial nfa) = [(DFA.startState d, L)] \<and> set L = Str ` names
         \<and> dfaQueue (initial nfa) = [DFA.startState d]
         \<and> take 1 (DFA.states d) = [DFA.startState d]))
   \<and> ((\<forall>symbol\<in>set (NFA.alphabet nfa). \<not> throws_on h symbol)
        \<longrightarrow> (\<exists>d. convertNFAtoDFA h nfa = Inr d))"
proof (intro conjI impI)
  assume "\<forall>symbol\<in>set (NFA.alphabet nfa). \<not> throws_on h symbol"
  then obtain s where "convert_loop h nfa = Inr s" using convert_loop_returns by blast
  from convertNFAtoDFA_of_loop [OF this] show "\<exists>d. convertNFAtoDFA h nfa = Inr d" by blast
next
  assume "convertNFAtoDFA h nfa = Inr d"
  then obtain s where s: "convert_loop h nfa = Inr s"
    and d: "d = \<lparr>states = map fst (dfaStates s), alphabet = NFA.alphabet nfa,
          transitions = dfaTransitions s, startState = startKey nfa,
          acceptStates = dfaAcceptStates s\<rparr>"
    by (rule convertNFAtoDFA_loop)
  have f: "DFA.states d = map fst (dfaStates s)" "DFA.startState d = startKey nfa"
    by (simp_all add: d)
  let ?c = "epsilonClosure [Str (NFA.startState nfa)] (NFA.transitions nfa)"
  let ?names = "{n. Str n \<in> set ?c}"
  note n = closure_names [of nfa]
  have a: "Str ` ?names = eps_reach (NFA.transitions nfa) {Str (NFA.startState nfa)}" by (rule n(3))
  have "Str (NFA.startState nfa) \<in> set ?c"
    using epsilonClosure_input [of "[Str (NFA.startState nfa)]"] by simp
  then have b: "NFA.startState nfa \<in> ?names" by simp
  have c: "DFA.startState d = canonical_key ?names" unfolding f by (rule n(2))
  have e: "dfaStates (initial nfa) = [(DFA.startState d, sort_key to_text ?c)]"
    unfolding f by (rule initial_fields)
  have g: "set (sort_key to_text ?c) = Str ` ?names" unfolding n(1) by simp
  have i: "dfaQueue (initial nfa) = [DFA.startState d]" unfolding f by (rule initial_fields)
  have j: "take 1 (DFA.states d) = [DFA.startState d]"
    unfolding f by (rule inv_statesD(4) [OF convert_final(3) [OF s]])
  from a b c e g i j
  show "\<exists>names L. Str ` names = eps_reach (NFA.transitions nfa) {Str (NFA.startState nfa)}
         \<and> NFA.startState nfa \<in> names
         \<and> DFA.startState d = canonical_key names
         \<and> dfaStates (initial nfa) = [(DFA.startState d, L)] \<and> set L = Str ` names
         \<and> dfaQueue (initial nfa) = [DFA.startState d]
         \<and> take 1 (DFA.states d) = [DFA.startState d]"
    by (intro exI [of _ ?names] exI [of _ "sort_key to_text ?c"] conjI)
qed

text \<open>
  The statement on the automaton with the epsilon transition from its start state \<open>q1\<close> to
  \<open>q0\<close>: the reachable set is \<open>{q0, q1}\<close> and the start key is \<open>{q0,q1}\<close>.
\<close>

theorem C5_witness:
  "\<exists>d. convertNFAtoDFA v8_host epsilon_nfa = Inr d
     \<and> eps_reach (NFA.transitions epsilon_nfa) {Str (NFA.startState epsilon_nfa)}
         = Str ` {''q0'', ''q1''}
     \<and> DFA.startState d = ''{q0,q1}''
     \<and> dfaQueue (initial epsilon_nfa) = [''{q0,q1}'']
     \<and> map fst (dfaStates (initial epsilon_nfa)) = [''{q0,q1}'']
     \<and> take 1 (DFA.states d) = [''{q0,q1}'']"
proof -
  have safe: "\<forall>symbol\<in>set (NFA.alphabet epsilon_nfa). \<not> throws_on v8_host symbol"
    by (simp add: epsilon_nfa_def v8_throws_on)
  from C5_start_state [of v8_host epsilon_nfa, THEN conjunct2, THEN mp, OF safe]
  obtain d where d: "convertNFAtoDFA v8_host epsilon_nfa = Inr d" ..
  from C5_start_state [of v8_host epsilon_nfa d, THEN conjunct1, THEN mp, OF d]
  obtain names L where
    r: "Str ` names = eps_reach (NFA.transitions epsilon_nfa) {Str (NFA.startState epsilon_nfa)}"
    and k: "DFA.startState d = canonical_key names"
    and i: "dfaStates (initial epsilon_nfa) = [(DFA.startState d, L)]"
    and q: "dfaQueue (initial epsilon_nfa) = [DFA.startState d]"
    and t: "take 1 (DFA.states d) = [DFA.startState d]"
    by blast
  have st: "NFA.startState epsilon_nfa = ''q1''" by (simp add: epsilon_nfa_def)
  have "eps_reach (NFA.transitions epsilon_nfa) {Str (NFA.startState epsilon_nfa)}
        = set (epsilonClosure [Str ''q1''] (NFA.transitions epsilon_nfa))"
    unfolding st epsilonClosure_eps_reach by simp
  also have "\<dots> = Str ` {''q0'', ''q1''}" unfolding epsilon_closure by auto
  finally have e: "eps_reach (NFA.transitions epsilon_nfa) {Str (NFA.startState epsilon_nfa)}
        = Str ` {''q0'', ''q1''}" .
  from r e have "Str ` names = Str ` {''q0'', ''q1''}" by simp
  then have n: "names = {''q0'', ''q1''}" by (simp only: inj_image_eq_iff [OF inj_onI [of UNIV Str, simplified]])
  from k have k': "DFA.startState d = ''{q0,q1}''" unfolding n canonical_key_q0_q1 .
  from i have i': "map fst (dfaStates (initial epsilon_nfa)) = [''{q0,q1}'']" unfolding k' by simp
  from d e k' q [unfolded k'] i' t [unfolded k'] show ?thesis by (intro exI [of _ d] conjI)
qed

text \<open>
  C6. Reachability of every returned key fails when a symbol of the alphabet is \<^verbatim>\<open>__proto__\<close>.
  For \<^verbatim>\<open>new NFA(["p","q"], ["__proto__","a"], {p: {a: ["q"]}}, "p", new Set(["q"]))\<close> the lookup
  on line 45 finds the inherited \<^verbatim>\<open>Object.prototype\<close>, the key \<open>{[object Object]}\<close> is recorded
  and queued, and the assignment on line 58 to the property \<^verbatim>\<open>__proto__\<close> of the row creates no
  entry. The returned \<open>states\<close> are \<open>{p}\<close>, \<open>{[object Object]}\<close>, \<open>{q}\<close>, the only transition is
  \<open>{p}-a->{q}\<close>, and \<open>{[object Object]}\<close> cannot be reached from the start key \<open>{p}\<close>.
\<close>

theorem C6_orphan_state:
  "\<exists>d. convertNFAtoDFA v8_host proto_symbol_nfa = Inr d
     \<and> DFA.startState d = ''{p}''
     \<and> DFA.states d = [''{p}'', ''{[object Object]}'', ''{q}'']
     \<and> DFA.transitions d = [''{p}'' \<mapsto> [''a'' \<mapsto> ''{q}''], ''{[object Object]}'' \<mapsto> Map.empty,
             ''{q}'' \<mapsto> Map.empty]
     \<and> \<not> dfa_reachable d ''{[object Object]}''"
proof -
  define d where "d = \<lparr>states = [''{p}'', ''{[object Object]}'', ''{q}''],
      alphabet = [''__proto__'', ''a''],
      transitions = [''{p}'' \<mapsto> [''a'' \<mapsto> ''{q}''], ''{[object Object]}'' \<mapsto> Map.empty,
             ''{q}'' \<mapsto> Map.empty],
      startState = ''{p}'', acceptStates = [''{q}'']\<rparr>"
  have r: "convertNFAtoDFA v8_host proto_symbol_nfa = Inr d"
    unfolding convertNFAtoDFA_of_loop [OF proto_symbol_loop] d_def
    by (simp add: startKey_def proto_symbol_nfa_def eval_simps)
  have f: "DFA.startState d = ''{p}''"
    "DFA.states d = [''{p}'', ''{[object Object]}'', ''{q}'']"
    "DFA.transitions d = [''{p}'' \<mapsto> [''a'' \<mapsto> ''{q}''], ''{[object Object]}'' \<mapsto> Map.empty,
             ''{q}'' \<mapsto> Map.empty]"
    by (simp_all add: d_def)
  have only: "k = ''{p}'' \<or> k = ''{q}''" if "dfa_reachable d k" for k
    using that
  proof (induction rule: dfa_reachable.induct)
    case start
    show ?case by (simp add: f)
  next
    case (follow k row symbol k')
    from follow.IH show ?case
    proof
      assume "k = ''{p}''"
      with follow.hyps(2) have "row = [''a'' \<mapsto> ''{q}'']" by (simp add: f)
      with follow.hyps(3) show ?thesis by (simp split: if_splits)
    next
      assume "k = ''{q}''"
      with follow.hyps(2) have "row = Map.empty" by (simp add: f)
      with follow.hyps(3) show ?thesis by simp
    qed
  qed
  have n: "\<not> dfa_reachable d ''{[object Object]}''"
  proof
    assume "dfa_reachable d ''{[object Object]}''"
    then have "''{[object Object]}'' = ''{p}'' \<or> ''{[object Object]}'' = ''{q}''" by (rule only)
    then show False by simp
  qed
  from r f n show ?thesis by (intro exI [of _ d] conjI)
qed

text \<open>
  C7. An entry is recorded for a pair without destinations when the symbol names a member of
  \<^verbatim>\<open>Object.prototype\<close>. For \<^verbatim>\<open>new NFA(["p","q"], ["constructor"], {p: {a: ["q"]}}, "p", new Set(["q"]))\<close>
  the table declares no destination of \<open>p\<close> on \<open>constructor\<close>, so the closed union of the
  declared destinations is empty; the lookup on line 45 finds the inherited function
  \<^verbatim>\<open>Object\<close>, and the returned transitions lead from \<open>{p}\<close> on \<open>constructor\<close> to a key made of the
  text of that function.
\<close>

theorem C7_entry_for_absent_pair:
  "declared_destinations (NFA.transitions constructor_symbol_nfa) ''p'' ''constructor'' = []
   \<and> epsilonClosure (map Str (declared_destinations (NFA.transitions constructor_symbol_nfa) ''p'' ''constructor''))
        (NFA.transitions constructor_symbol_nfa) = []
   \<and> (\<exists>s d row. convert_loop v8_host constructor_symbol_nfa = Inr s
        \<and> convertNFAtoDFA v8_host constructor_symbol_nfa = Inr d
        \<and> map_of (dfaStates s) ''{p}'' = Some [Str ''p'']
        \<and> nextNfaStates v8_host constructor_symbol_nfa [Str ''p''] ''constructor''
            = Inr [Ref 1 ''function Object() { [native code] }'']
        \<and> DFA.transitions d ''{p}'' = Some row
        \<and> row ''constructor'' = Some ''{function Object() { [native code] }}'')"
proof -
  let ?s = "\<lparr>dfaStates = [(''{p}'', [Str ''p'']),
                      (''{function Object() { [native code] }}'',
                       [Ref 1 ''function Object() { [native code] }''])],
          dfaTransitions =
            [''{p}'' \<mapsto> [''constructor'' \<mapsto> ''{function Object() { [native code] }}''],
             ''{function Object() { [native code] }}'' \<mapsto> Map.empty],
          dfaAcceptStates = [],
          dfaQueue = []\<rparr>"
  let ?d = "\<lparr>states = map fst (dfaStates ?s), alphabet = NFA.alphabet constructor_symbol_nfa,
          transitions = dfaTransitions ?s, startState = startKey constructor_symbol_nfa,
          acceptStates = dfaAcceptStates ?s\<rparr>"
  have a: "declared_destinations (NFA.transitions constructor_symbol_nfa) ''p'' ''constructor'' = []"
    by (simp add: declared_destinations_def constructor_symbol_nfa_def)
  have b: "epsilonClosure (map Str (declared_destinations (NFA.transitions constructor_symbol_nfa) ''p'' ''constructor''))
        (NFA.transitions constructor_symbol_nfa) = []"
    unfolding a by (simp add: epsilonClosure_Nil)
  have d: "convertNFAtoDFA v8_host constructor_symbol_nfa = Inr ?d"
    by (rule convertNFAtoDFA_of_loop [OF constructor_symbol_loop])
  have n: "nextNfaStates v8_host constructor_symbol_nfa [Str ''p''] ''constructor''
            = Inr [Ref 1 ''function Object() { [native code] }'']"
    by (simp add: constructor_symbol_nfa_def v8_host_def eval_simps)
  have c: "\<exists>s d row. convert_loop v8_host constructor_symbol_nfa = Inr s
        \<and> convertNFAtoDFA v8_host constructor_symbol_nfa = Inr d
        \<and> map_of (dfaStates s) ''{p}'' = Some [Str ''p'']
        \<and> nextNfaStates v8_host constructor_symbol_nfa [Str ''p''] ''constructor''
            = Inr [Ref 1 ''function Object() { [native code] }'']
        \<and> DFA.transitions d ''{p}'' = Some row
        \<and> row ''constructor'' = Some ''{function Object() { [native code] }}''"
    by (intro exI [of _ ?s] exI [of _ ?d]
          exI [of _ "[''constructor'' \<mapsto> ''{function Object() { [native code] }}'']"] conjI
          constructor_symbol_loop d n) simp_all
  from a b c show ?thesis by (intro conjI)
qed

text \<open>
  C8. The bound \<open>2 ^ |nfa.states| - 1\<close> on the number of keys fails when a state is named as a
  member of \<^verbatim>\<open>Object.prototype\<close>. For \<^verbatim>\<open>new NFA(["constructor"], ["name"], {}, "constructor", new Set())\<close>
  the start state is a declared state, the table is empty and the bound is \<open>1\<close>, but the lookup
  on line 45 finds the name \<open>Object\<close> of the inherited function and the conversion returns the
  two keys \<open>{constructor}\<close> and \<open>{Object}\<close>. For \<^verbatim>\<open>new NFA(["toString"], ["caller"], {}, "toString", new Set())\<close>
  the same lookup reads a member that throws, and the conversion ends in a \<^verbatim>\<open>TypeError\<close>
  instead of returning a DFA.
\<close>

theorem C8_bound_exceeded:
  "NFA.startState constructor_state_nfa \<in> set (NFA.states constructor_state_nfa)
   \<and> NFA.transitions constructor_state_nfa = []
   \<and> NFA.acceptStates constructor_state_nfa \<subseteq> set (NFA.states constructor_state_nfa)
   \<and> (2::nat) ^ card (set (NFA.states constructor_state_nfa)) - 1 = 1
   \<and> (\<exists>d. convertNFAtoDFA v8_host constructor_state_nfa = Inr d
        \<and> DFA.states d = [''{constructor}'', ''{Object}'']
        \<and> card (set (DFA.states d)) = 2)
   \<and> NFA.startState toString_state_nfa \<in> set (NFA.states toString_state_nfa)
   \<and> NFA.transitions toString_state_nfa = []
   \<and> convertNFAtoDFA v8_host toString_state_nfa = Inl TypeError"
proof -
  let ?s = "\<lparr>dfaStates = [(''{constructor}'', [Str ''constructor'']), (''{Object}'', [Str ''Object''])],
          dfaTransitions =
            [''{constructor}'' \<mapsto> [''name'' \<mapsto> ''{Object}''], ''{Object}'' \<mapsto> Map.empty],
          dfaAcceptStates = [],
          dfaQueue = []\<rparr>"
  let ?d = "\<lparr>states = map fst (dfaStates ?s), alphabet = NFA.alphabet constructor_state_nfa,
          transitions = dfaTransitions ?s, startState = startKey constructor_state_nfa,
          acceptStates = dfaAcceptStates ?s\<rparr>"
  have a: "NFA.startState constructor_state_nfa \<in> set (NFA.states constructor_state_nfa)"
    "NFA.transitions constructor_state_nfa = []"
    "NFA.acceptStates constructor_state_nfa \<subseteq> set (NFA.states constructor_state_nfa)"
    "(2::nat) ^ card (set (NFA.states constructor_state_nfa)) - 1 = 1"
    by (simp_all add: constructor_state_nfa_def)
  have d: "convertNFAtoDFA v8_host constructor_state_nfa = Inr ?d"
    by (rule convertNFAtoDFA_of_loop [OF constructor_state_loop])
  have b: "\<exists>d. convertNFAtoDFA v8_host constructor_state_nfa = Inr d
        \<and> DFA.states d = [''{constructor}'', ''{Object}'']
        \<and> card (set (DFA.states d)) = 2"
    by (intro exI [of _ ?d] conjI d) simp_all
  have c: "NFA.startState toString_state_nfa \<in> set (NFA.states toString_state_nfa)"
    "NFA.transitions toString_state_nfa = []"
    by (simp_all add: toString_state_nfa_def)
  have e: "convertNFAtoDFA v8_host toString_state_nfa = Inl TypeError"
    by (simp add: convertNFAtoDFA_def toString_state_loop)
  from a b c e show ?thesis by (intro conjI)
qed

text \<open>
  C9. For every list \<open>S\<close> and table \<open>T\<close>, the closure of the closure of \<open>S\<close> has the same set of
  states as the closure of \<open>S\<close>.
\<close>

theorem C9_epsilonClosure_idempotent:
  "set (epsilonClosure (epsilonClosure S T) T) = set (epsilonClosure S T)"
proof
  show "set (epsilonClosure (epsilonClosure S T) T) \<subseteq> set (epsilonClosure S T)"
    by (rule epsilonClosure_least) (simp_all add: epsilonClosure_closed)
  show "set (epsilonClosure S T) \<subseteq> set (epsilonClosure (epsilonClosure S T) T)"
    by (rule epsilonClosure_input)
qed

text \<open>
  C10. \<open>epsilonClosure\<close> of the empty list is the empty list for every table. The conversion
  does not always pass it the empty list for a symbol without declared destinations: for
  \<^verbatim>\<open>new NFA(["p","q"], ["constructor"], {p: {a: ["q"]}}, "p", new Set(["q"]))\<close> the state \<open>p\<close> has no
  declared destination on \<open>constructor\<close>, but the union built on lines 43 to 47 holds the
  inherited function \<^verbatim>\<open>Object\<close>, the closure is not empty, and the body of the \<^verbatim>\<open>for\<close>
  statement, started in the state in which the run reaches it, records a key, a queue element
  and a transition.
\<close>

theorem C10_inherited_member_in_union:
  "epsilonClosure [] T = []
   \<and> declared_destinations (NFA.transitions constructor_symbol_nfa) ''p'' ''constructor'' = []
   \<and> dfaStates (initial constructor_symbol_nfa) = [(''{p}'', [Str ''p''])]
   \<and> flatMap_destinations v8_host (NFA.transitions constructor_symbol_nfa) ''constructor'' [Str ''p'']
        = Inr [Ref 1 ''function Object() { [native code] }'']
   \<and> nextNfaStates v8_host constructor_symbol_nfa [Str ''p''] ''constructor''
        = Inr [Ref 1 ''function Object() { [native code] }'']
   \<and> for_symbol_body v8_host constructor_symbol_nfa ''{p}'' [Str ''p''] ''constructor''
        \<lparr>dfaStates = [(''{p}'', [Str ''p''])], dfaTransitions = [''{p}'' \<mapsto> Map.empty],
         dfaAcceptStates = [], dfaQueue = []\<rparr>
        = Inr \<lparr>dfaStates = [(''{p}'', [Str ''p'']),
                      (''{function Object() { [native code] }}'',
                       [Ref 1 ''function Object() { [native code] }''])],
          dfaTransitions =
            [''{p}'' \<mapsto> [''constructor'' \<mapsto> ''{function Object() { [native code] }}'']],
          dfaAcceptStates = [],
          dfaQueue = [''{function Object() { [native code] }}'']\<rparr>"
proof -
  have a: "epsilonClosure [] T = []" by (rule epsilonClosure_Nil)
  have b: "declared_destinations (NFA.transitions constructor_symbol_nfa) ''p'' ''constructor'' = []"
    by (simp add: declared_destinations_def constructor_symbol_nfa_def)
  have c: "dfaStates (initial constructor_symbol_nfa) = [(''{p}'', [Str ''p''])]"
    by (simp add: constructor_symbol_nfa_def eval_simps)
  have d: "flatMap_destinations v8_host (NFA.transitions constructor_symbol_nfa) ''constructor'' [Str ''p'']
        = Inr [Ref 1 ''function Object() { [native code] }'']"
    by (simp add: constructor_symbol_nfa_def v8_host_def eval_simps)
  have e: "nextNfaStates v8_host constructor_symbol_nfa [Str ''p''] ''constructor''
        = Inr [Ref 1 ''function Object() { [native code] }'']"
    by (simp add: constructor_symbol_nfa_def v8_host_def eval_simps)
  have f: "for_symbol_body v8_host constructor_symbol_nfa ''{p}'' [Str ''p''] ''constructor''
        \<lparr>dfaStates = [(''{p}'', [Str ''p''])], dfaTransitions = [''{p}'' \<mapsto> Map.empty],
         dfaAcceptStates = [], dfaQueue = []\<rparr>
        = Inr \<lparr>dfaStates = [(''{p}'', [Str ''p'']),
                      (''{function Object() { [native code] }}'',
                       [Ref 1 ''function Object() { [native code] }''])],
          dfaTransitions =
            [''{p}'' \<mapsto> [''constructor'' \<mapsto> ''{function Object() { [native code] }}'']],
          dfaAcceptStates = [],
          dfaQueue = [''{function Object() { [native code] }}'']\<rparr>"
    by (simp add: constructor_symbol_nfa_def v8_host_def eval_simps)
  from a b c d e f show ?thesis by (intro conjI)
qed

end
